theory Spec2Isabelle
  imports Main "HOL-Library.AList"
begin

section \<open>Data model of \<open>hindi_bpe_tokenizer.py\<close>\<close>

text \<open>
  A Python \<open>str\<close> is a sequence of code points; a code point is a natural number
  (at most \<open>0x10FFFF\<close> in a real \<open>str\<close>, lone surrogates included). Symbol ids and
  byte values are Python ints. A \<open>bytes\<close> object is the list of its byte values,
  which is also what \<open>list(chunk_bytes)\<close> returns.
\<close>

type_synonym codepoint = nat

type_synonym str = "codepoint list"

type_synonym sym = int

type_synonym pair = "sym \<times> sym"

text \<open>
  \<open>self.merges\<close> is a dict and its insertion order is the rank order, so it is an
  association list in insertion order; \<open>d[k] = v\<close> is \<open>AList.update k v d\<close> (in place
  for a key already there, at the end for a new one). \<open>self.vocab\<close> is only looked up
  by key, so it is a map.
\<close>

type_synonym merges = "(pair \<times> sym) list"

type_synonym vocab = "sym \<rightharpoonup> sym list"

datatype error = ValueError | KeyError | UnicodeEncodeError | ZeroDivisionError

subsection \<open>The pattern language used by \<open>self.pattern\<close>\<close>

text \<open>
  The fragment of the regular expression syntax that the pattern of \<open>__init__\<close> uses:
  a single character of a class, \<open>r?\<close>, \<open>[class]+\<close>, the negative lookahead
  \<open>(?!c)\<close> for a one-character class, concatenation and alternation.
\<close>

datatype rx =
    Chr "codepoint \<Rightarrow> bool"
  | Opt rx
  | Plus "codepoint \<Rightarrow> bool"
  | NotAhead "codepoint \<Rightarrow> bool"
  | Seq rx rx
  | Alt rx rx

text \<open>
  \<open>cands r s\<close> lists the lengths of the prefixes of \<open>s\<close> that a backtracking matcher
  tries for \<open>r\<close>, in the order it tries them: greedy quantifiers try the longest
  first, an alternation tries its left branch first. The match found at a position is
  the first candidate.
\<close>

fun cands :: "rx \<Rightarrow> str \<Rightarrow> nat list" where
  "cands (Chr P) s = (case s of [] \<Rightarrow> [] | c # _ \<Rightarrow> if P c then [1] else [])"
| "cands (Opt r) s = cands r s @ [0]"
| "cands (Plus P) s = rev [1 ..< Suc (length (takeWhile P s))]"
| "cands (NotAhead P) s = (case s of [] \<Rightarrow> [0] | c # _ \<Rightarrow> if P c then [] else [0])"
| "cands (Seq r1 r2) s =
     concat (map (\<lambda>n. map (\<lambda>m. n + m) (cands r2 (drop n s))) (cands r1 s))"
| "cands (Alt r1 r2) s = cands r1 s @ cands r2 s"

definition match_at :: "rx \<Rightarrow> str \<Rightarrow> nat option" where
  "match_at r s = (case cands r s of [] \<Rightarrow> None | n # _ \<Rightarrow> Some n)"

text \<open>
  \<open>re.findall(pattern, text)\<close> for a pattern without groups: scan from the left; where
  the pattern matches, emit the matched text and go on after it; where it does not,
  skip one character. (An empty match is emitted and the scan moves one character on;
  the pattern of this program has no empty match, see \<open>pattern_match_pos\<close>.)
\<close>

function findall :: "rx \<Rightarrow> str \<Rightarrow> str list" where
  "findall r [] = []"
| "findall r (c # cs) =
     (case match_at r (c # cs) of
        None \<Rightarrow> findall r cs
      | Some n \<Rightarrow>
          if n = 0 then [] # findall r cs
          else take n (c # cs) # findall r (drop n (c # cs)))"
  by pat_completeness auto

termination
  by (relation "measure (\<lambda>(r, s). length s)") auto

text \<open>
  The character classes \<open>\p{L}\<close>, \<open>\p{N}\<close> and \<open>\s\<close> are tables of the \<open>regex\<close>
  library, not of this repository: they are parameters of the model.
\<close>

record classes =
  is_L :: "codepoint \<Rightarrow> bool"
  is_N :: "codepoint \<Rightarrow> bool"
  is_space :: "codepoint \<Rightarrow> bool"

text \<open>
  The pattern of \<open>__init__\<close>, alternative by alternative:
  \<^verbatim>\<open> ?[\u0900-\u097F]+| ?[\u0980-\u09FF]+| ?\p{L}+| ?\p{N}+| ?[^\s\p{L}\p{N}]+|\s+(?!\S)|\s+\<close>
\<close>

definition opt_space :: rx where
  "opt_space = Opt (Chr (\<lambda>c. c = 0x20))"

definition hindi_pattern :: "classes \<Rightarrow> rx" where
  "hindi_pattern cl =
     Alt (Seq opt_space (Plus (\<lambda>c. 0x0900 \<le> c \<and> c \<le> 0x097F)))
    (Alt (Seq opt_space (Plus (\<lambda>c. 0x0980 \<le> c \<and> c \<le> 0x09FF)))
    (Alt (Seq opt_space (Plus (is_L cl)))
    (Alt (Seq opt_space (Plus (is_N cl)))
    (Alt (Seq opt_space (Plus (\<lambda>c. \<not> (is_space cl c \<or> is_L cl c \<or> is_N cl c))))
    (Alt (Seq (Plus (is_space cl)) (NotAhead (\<lambda>c. \<not> is_space cl c)))
         (Plus (is_space cl)))))))"

subsection \<open>The tokenizer object\<close>

record tokenizer =
  vocab_size :: int
  merges :: merges
  vocab :: vocab
  pattern :: rx

text \<open>\<open>{idx: bytes([idx]) for idx in range(256)}\<close>\<close>

definition base_vocab :: vocab where
  "base_vocab = (\<lambda>idx. if 0 \<le> idx \<and> idx < 256 then Some [idx] else None)"

text \<open>\<open>__init__\<close>: the check on \<open>vocab_size\<close> comes first; nothing else can raise.\<close>

definition init :: "classes \<Rightarrow> int \<Rightarrow> error + tokenizer" where
  "init cl vs =
     (if vs < 256 then Inl ValueError
      else Inr \<lparr> vocab_size = vs, merges = [], vocab = base_vocab,
                 pattern = hindi_pattern cl \<rparr>)"

subsection \<open>\<open>get_stats\<close>\<close>

text \<open>
  \<open>counts\<close> is a \<open>defaultdict(int)\<close>: a dict in first-insertion order, a missing key
  reads as 0.
\<close>

definition bump :: "(pair \<times> nat) list \<Rightarrow> pair \<Rightarrow> (pair \<times> nat) list" where
  "bump counts p =
     AList.update p ((case map_of counts p of None \<Rightarrow> 0 | Some c \<Rightarrow> c) + 1) counts"

definition get_stats :: "sym list \<Rightarrow> (pair \<times> nat) list" where
  "get_stats ids = foldl bump [] (zip ids (drop 1 ids))"

subsection \<open>\<open>merge\<close>\<close>

function merge_loop :: "sym list \<Rightarrow> pair \<Rightarrow> sym \<Rightarrow> nat \<Rightarrow> sym list \<Rightarrow> sym list" where
  "merge_loop ids pair idx i newids =
     (if i < length ids then
        (if i < length ids - 1 \<and> ids ! i = fst pair \<and> ids ! (i + 1) = snd pair
         then merge_loop ids pair idx (i + 2) (newids @ [idx])
         else merge_loop ids pair idx (i + 1) (newids @ [ids ! i]))
      else newids)"
  by pat_completeness auto

termination
  by (relation "measure (\<lambda>(ids, pair, idx, i, newids). length ids - i)") auto

declare merge_loop.simps [simp del]

definition merge :: "sym list \<Rightarrow> pair \<Rightarrow> sym \<Rightarrow> sym list" where
  "merge ids pair idx = merge_loop ids pair idx 0 []"

text \<open>The same scan as a recursion on the rest of the list (used in the proofs).\<close>

fun merge_rec :: "sym list \<Rightarrow> pair \<Rightarrow> sym \<Rightarrow> sym list" where
  "merge_rec (x # y # zs) pair idx =
     (if x = fst pair \<and> y = snd pair then idx # merge_rec zs pair idx
      else x # merge_rec (y # zs) pair idx)"
| "merge_rec [x] pair idx = [x]"
| "merge_rec [] pair idx = []"

text \<open>The positions at which the pair stands in the input (the candidates of a merge).\<close>

definition candidates :: "sym list \<Rightarrow> pair \<Rightarrow> nat list" where
  "candidates ids pair =
     filter (\<lambda>i. ids ! i = fst pair \<and> ids ! (i + 1) = snd pair) [0 ..< length ids - 1]"

text \<open>The index of the first occurrence of a pair in a list of pairs.\<close>

definition first_pos :: "pair list \<Rightarrow> pair \<Rightarrow> nat" where
  "first_pos ps p = length (takeWhile (\<lambda>q. q \<noteq> p) ps)"

subsection \<open>\<open>max\<close> and \<open>min\<close> with a key\<close>

text \<open>
  \<open>max(xs, key=f)\<close> and \<open>min(xs, key=f)\<close> walk \<open>xs\<close> once and replace the item they
  hold only by a strictly better one, so the first of several best items wins. On an
  empty \<open>xs\<close> they raise \<open>ValueError\<close>.
\<close>

fun first_best :: "('k \<Rightarrow> 'k \<Rightarrow> bool) \<Rightarrow> ('a \<Rightarrow> 'k) \<Rightarrow> 'a \<Rightarrow> 'a list \<Rightarrow> 'a" where
  "first_best better key best [] = best"
| "first_best better key best (y # ys) =
     first_best better key (if better (key y) (key best) then y else best) ys"

definition py_best :: "('k \<Rightarrow> 'k \<Rightarrow> bool) \<Rightarrow> ('a \<Rightarrow> 'k) \<Rightarrow> 'a list \<Rightarrow> error + 'a" where
  "py_best better key xs =
     (case xs of [] \<Rightarrow> Inl ValueError | x # rest \<Rightarrow> Inr (first_best better key x rest))"

text \<open>
  The key of \<open>max(stats, key=stats.get)\<close> is the count of a key of \<open>stats\<close>; \<open>get\<close>
  gives \<open>None\<close> only for a pair that is not a key, which \<open>max\<close> never asks for.
\<close>

definition count_greater :: "nat option \<Rightarrow> nat option \<Rightarrow> bool" where
  "count_greater a b = (case (a, b) of (Some x, Some y) \<Rightarrow> y < x | _ \<Rightarrow> False)"

text \<open>
  The key of \<open>min(stats, key=lambda p: self.merges.get(p, float("inf")))\<close> is the id of
  the merge or infinity: \<open>None\<close> stands for \<open>float("inf")\<close>.
\<close>

definition rank_less :: "sym option \<Rightarrow> sym option \<Rightarrow> bool" where
  "rank_less a b =
     (case a of None \<Rightarrow> False
      | Some x \<Rightarrow> (case b of None \<Rightarrow> True | Some y \<Rightarrow> x < y))"

subsection \<open>UTF-8\<close>

text \<open>
  \<open>str.encode("utf-8")\<close>, character by character. A lone surrogate has no UTF-8
  encoding and raises \<open>UnicodeEncodeError\<close>. (A number above \<open>0x10FFFF\<close> is no
  character of a \<open>str\<close>; the model gives it the same error.)
\<close>

definition utf8_char :: "codepoint \<Rightarrow> error + sym list" where
  "utf8_char c =
     (if c < 0x80 then Inr [int c]
      else if c < 0x800 then Inr [int (0xC0 + c div 64), int (0x80 + c mod 64)]
      else if 0xD800 \<le> c \<and> c \<le> 0xDFFF then Inl UnicodeEncodeError
      else if c < 0x10000 then
        Inr [int (0xE0 + c div 4096), int (0x80 + c div 64 mod 64), int (0x80 + c mod 64)]
      else if c < 0x110000 then
        Inr [int (0xF0 + c div 262144), int (0x80 + c div 4096 mod 64),
             int (0x80 + c div 64 mod 64), int (0x80 + c mod 64)]
      else Inl UnicodeEncodeError)"

fun utf8_encode :: "str \<Rightarrow> error + sym list" where
  "utf8_encode [] = Inr []"
| "utf8_encode (c # cs) =
     (case utf8_char c of
        Inl e \<Rightarrow> Inl e
      | Inr bs \<Rightarrow> (case utf8_encode cs of Inl e \<Rightarrow> Inl e | Inr rest \<Rightarrow> Inr (bs @ rest)))"

text \<open>
  \<open>bytes.decode("utf-8", errors="replace")\<close>: a well-formed sequence gives its
  character; otherwise the longest prefix of the bytes at hand that starts a well-formed
  sequence (at least one byte) gives one \<open>U+FFFD\<close>, and decoding goes on after it. It
  never raises.
\<close>

definition is_cont :: "sym \<Rightarrow> bool" where
  "is_cont b = (0x80 \<le> b \<and> b \<le> 0xBF)"

definition second_ok :: "sym \<Rightarrow> sym \<Rightarrow> bool" where
  "second_ok b0 b1 =
     (if b0 = 0xE0 then 0xA0 \<le> b1 \<and> b1 \<le> 0xBF
      else if b0 = 0xED then 0x80 \<le> b1 \<and> b1 \<le> 0x9F
      else if b0 = 0xF0 then 0x90 \<le> b1 \<and> b1 \<le> 0xBF
      else if b0 = 0xF4 then 0x80 \<le> b1 \<and> b1 \<le> 0x8F
      else is_cont b1)"

fun utf8_decode :: "sym list \<Rightarrow> str" where
  "utf8_decode [] = []"
| "utf8_decode (b0 # bs) =
     (if 0 \<le> b0 \<and> b0 < 0x80 then nat b0 # utf8_decode bs
      else if 0xC2 \<le> b0 \<and> b0 \<le> 0xDF then
        (case bs of
           [] \<Rightarrow> [0xFFFD]
         | b1 # r1 \<Rightarrow>
             if is_cont b1 then nat ((b0 - 0xC0) * 64 + (b1 - 0x80)) # utf8_decode r1
             else 0xFFFD # utf8_decode bs)
      else if 0xE0 \<le> b0 \<and> b0 \<le> 0xEF then
        (case bs of
           [] \<Rightarrow> [0xFFFD]
         | b1 # r1 \<Rightarrow>
             if second_ok b0 b1 then
               (case r1 of
                  [] \<Rightarrow> [0xFFFD]
                | b2 # r2 \<Rightarrow>
                    if is_cont b2 then
                      nat ((b0 - 0xE0) * 4096 + (b1 - 0x80) * 64 + (b2 - 0x80))
                        # utf8_decode r2
                    else 0xFFFD # utf8_decode r1)
             else 0xFFFD # utf8_decode bs)
      else if 0xF0 \<le> b0 \<and> b0 \<le> 0xF4 then
        (case bs of
           [] \<Rightarrow> [0xFFFD]
         | b1 # r1 \<Rightarrow>
             if second_ok b0 b1 then
               (case r1 of
                  [] \<Rightarrow> [0xFFFD]
                | b2 # r2 \<Rightarrow>
                    if is_cont b2 then
                      (case r2 of
                         [] \<Rightarrow> [0xFFFD]
                       | b3 # r3 \<Rightarrow>
                           if is_cont b3 then
                             nat ((b0 - 0xF0) * 262144 + (b1 - 0x80) * 4096
                                  + (b2 - 0x80) * 64 + (b3 - 0x80))
                               # utf8_decode r3
                           else 0xFFFD # utf8_decode r2)
                    else 0xFFFD # utf8_decode r1)
             else 0xFFFD # utf8_decode bs)
      else 0xFFFD # utf8_decode bs)"

text \<open>The text a \<open>str\<close> must be for \<open>encode("utf-8")\<close> to succeed: no lone surrogate.\<close>

definition valid_text :: "str \<Rightarrow> bool" where
  "valid_text s = list_all (\<lambda>c. c < 0xD800 \<or> (0xE000 \<le> c \<and> c < 0x110000)) s"

text \<open>The character classes on ASCII, for evaluating examples on ASCII text.\<close>

definition ascii_classes :: classes where
  "ascii_classes =
     \<lparr> is_L = (\<lambda>c. (0x41 \<le> c \<and> c \<le> 0x5A) \<or> (0x61 \<le> c \<and> c \<le> 0x7A)),
       is_N = (\<lambda>c. 0x30 \<le> c \<and> c \<le> 0x39),
       is_space = (\<lambda>c. c = 0x20 \<or> (0x09 \<le> c \<and> c \<le> 0x0D)) \<rparr>"

subsection \<open>Training and decoding\<close>

text \<open>
  The body of \<open>for i in range(num_merges)\<close> in \<open>train\<close>. Its state is the sequence
  \<open>ids\<close>, the local dict \<open>merges\<close> and \<open>self.vocab\<close>. The loop ends early when there
  is no pair left; \<open>self.vocab[...]\<close> raises \<open>KeyError\<close> on an id without entry.
\<close>

fun train_loop ::
  "nat list \<Rightarrow> sym list \<Rightarrow> merges \<Rightarrow> vocab \<Rightarrow> error + (sym list \<times> merges \<times> vocab)" where
  "train_loop [] ids ms vc = Inr (ids, ms, vc)"
| "train_loop (i # rest) ids ms vc =
     (let stats = get_stats ids in
      if stats = [] then Inr (ids, ms, vc)
      else
        (case py_best count_greater (map_of stats) (map fst stats) of
           Inl e \<Rightarrow> Inl e
         | Inr pair \<Rightarrow>
             (let idx = 256 + int i;
                  ids' = merge ids pair idx;
                  ms' = AList.update pair idx ms
              in case vc (fst pair) of
                   None \<Rightarrow> Inl KeyError
                 | Some left \<Rightarrow>
                     (case vc (snd pair) of
                        None \<Rightarrow> Inl KeyError
                      | Some right \<Rightarrow> train_loop rest ids' ms' (vc(idx \<mapsto> left @ right))))))"

text \<open>The first loop of \<open>train\<close>: the bytes of every chunk, as lists of ints.\<close>

fun utf8_chunks :: "str list \<Rightarrow> error + sym list list" where
  "utf8_chunks [] = Inr []"
| "utf8_chunks (chunk # rest) =
     (case utf8_encode chunk of
        Inl e \<Rightarrow> Inl e
      | Inr chunk_ids \<Rightarrow>
          (case utf8_chunks rest of Inl e \<Rightarrow> Inl e | Inr others \<Rightarrow> Inr (chunk_ids # others)))"

text \<open>
  \<open>train\<close>. With \<open>verbose\<close> it prints its progress, which is not modelled, except that
  the final report computes \<open>len(all_tokens) / len(ids)\<close> and so raises
  \<open>ZeroDivisionError\<close> when the sequence is empty. The result is the object after the
  call.
\<close>

definition train :: "tokenizer \<Rightarrow> str \<Rightarrow> bool \<Rightarrow> error + tokenizer" where
  "train self text verbose =
     (let text_chunks = findall (pattern self) text in
      case utf8_chunks text_chunks of
        Inl e \<Rightarrow> Inl e
      | Inr tokens_list \<Rightarrow>
          (let all_tokens = concat tokens_list;
               num_merges = vocab_size self - 256
           in case train_loop [0 ..< nat num_merges] all_tokens [] (vocab self) of
                Inl e \<Rightarrow> Inl e
              | Inr (ids, ms, vc) \<Rightarrow>
                  if verbose \<and> length ids = 0 then Inl ZeroDivisionError
                  else Inr (self\<lparr>merges := ms, vocab := vc\<rparr>)))"

text \<open>
  \<open>decode\<close>: \<open>b"".join(self.vocab[idx] for idx in ids)\<close> raises \<open>KeyError\<close> at the
  first id without entry; the bytes are then decoded with \<open>errors="replace"\<close>.
\<close>

fun join_vocab :: "vocab \<Rightarrow> sym list \<Rightarrow> error + sym list" where
  "join_vocab vc [] = Inr []"
| "join_vocab vc (idx # ids) =
     (case vc idx of
        None \<Rightarrow> Inl KeyError
      | Some bs \<Rightarrow> (case join_vocab vc ids of Inl e \<Rightarrow> Inl e | Inr rest \<Rightarrow> Inr (bs @ rest)))"

definition decode :: "tokenizer \<Rightarrow> sym list \<Rightarrow> error + str" where
  "decode self ids =
     (case join_vocab (vocab self) ids of
        Inl e \<Rightarrow> Inl e
      | Inr tokens \<Rightarrow> Inr (utf8_decode tokens))"

subsection \<open>Invariants of the vocabulary and the merge table\<close>

text \<open>
  \<open>base_ok\<close>: the ids 0..255 map to their own byte. \<open>entry_ok\<close>: the vocabulary entry
  of a merge is the concatenation of the entries of its pair. \<open>loop_inv\<close>: what holds
  of the sequence, the merge table and the vocabulary before iteration \<open>i\<close> of the
  training loop.
\<close>

definition base_ok :: "vocab \<Rightarrow> bool" where
  "base_ok vc = (\<forall>b. 0 \<le> b \<and> b < 256 \<longrightarrow> vc b = Some [b])"

definition entry_ok :: "vocab \<Rightarrow> pair \<times> sym \<Rightarrow> bool" where
  "entry_ok vc e =
     (case e of ((a, b), v) \<Rightarrow>
        \<exists>x y. vc a = Some x \<and> vc b = Some y \<and> vc v = Some (x @ y))"

definition loop_inv :: "nat \<Rightarrow> sym list \<Rightarrow> merges \<Rightarrow> vocab \<Rightarrow> bool" where
  "loop_inv i ids ms vc =
     (base_ok vc
      \<and> (\<forall>x\<in>set ids. x < 256 + int i \<and> vc x \<noteq> None)
      \<and> (\<forall>e\<in>set ms. fst (fst e) < snd e \<and> snd (fst e) < snd e
            \<and> 256 \<le> snd e \<and> snd e < 256 + int i
            \<and> entry_ok vc e
            \<and> fst e \<notin> set (zip ids (drop 1 ids)))
      \<and> distinct (map fst ms)
      \<and> sorted_wrt (<) (map snd ms))"

text \<open>\<open>tok_ok\<close>: what holds of a tokenizer object between calls.\<close>

definition tok_ok :: "tokenizer \<Rightarrow> bool" where
  "tok_ok self =
     (base_ok (vocab self)
      \<and> (\<forall>e\<in>set (merges self). 256 \<le> snd e \<and> entry_ok (vocab self) e)
      \<and> distinct (map fst (merges self))
      \<and> sorted_wrt (<) (map snd (merges self)))"

subsection \<open>Encoding\<close>

text \<open>
  The loop of \<open>encode\<close> ends because every merge that it applies shortens the sequence:
  the pair it merges is a key of the statistics, so it occurs in the sequence. The
  facts below are what the termination proof of \<open>encode_chunk\<close> needs.
\<close>

lemma merge_loop_rec:
  "i \<le> length ids \<Longrightarrow> merge_loop ids pair idx i acc = acc @ merge_rec (drop i ids) pair idx"
proof (induction ids pair idx i acc rule: merge_loop.induct)
  case (1 ids pair idx i newids)
  show ?case
  proof (cases "i < length ids")
    case False
    with 1(3) show ?thesis by (simp add: merge_loop.simps)
  next
    case lt: True
    show ?thesis
    proof (cases "i < length ids - 1 \<and> ids ! i = fst pair \<and> ids ! (i + 1) = snd pair")
      case True
      then have d: "drop i ids = ids ! i # ids ! (i + 1) # drop (i + 2) ids"
        by (metis Cons_nth_drop_Suc Suc_eq_plus1 add_2_eq_Suc' less_diff_conv lt)
      from True lt have "merge_loop ids pair idx i newids = merge_loop ids pair idx (i + 2) (newids @ [idx])"
        by (subst merge_loop.simps) simp
      also have "\<dots> = (newids @ [idx]) @ merge_rec (drop (i + 2) ids) pair idx"
        using 1(1)[OF lt True] True lt by (simp add: less_diff_conv)
      finally show ?thesis using True d by simp
    next
      case False
      from lt have d: "drop i ids = ids ! i # drop (i + 1) ids"
        by (simp add: Cons_nth_drop_Suc)
      from False lt have "merge_loop ids pair idx i newids = merge_loop ids pair idx (i + 1) (newids @ [ids ! i])"
        by (subst merge_loop.simps) (simp only: if_True if_False)
      also have "\<dots> = (newids @ [ids ! i]) @ merge_rec (drop (i + 1) ids) pair idx"
        using 1(2)[OF lt False] lt by simp
      finally have step: "merge_loop ids pair idx i newids = (newids @ [ids ! i]) @ merge_rec (drop (i + 1) ids) pair idx" .
      show ?thesis
      proof (cases "drop (i + 1) ids")
        case Nil
        then show ?thesis using d step by simp
      next
        case (Cons y zs)
        then have "y = ids ! (i + 1)" 
          by (metis nth_via_drop)
        moreover have "i < length ids - 1" using Cons 
          by (metis drop_eq_Nil2 less_diff_conv linorder_not_le list.distinct(1))
        ultimately show ?thesis using d Cons False step by auto
      qed
    qed
  qed
qed

lemma merge_eq_rec: "merge ids pair idx = merge_rec ids pair idx"
  by (simp add: merge_def merge_loop_rec)

lemma length_merge_rec: "length (merge_rec ids pair idx) \<le> length ids"
  by (induction ids pair idx rule: merge_rec.induct) auto

lemma length_merge_rec_less:
  "pair \<in> set (zip ids (drop 1 ids)) \<Longrightarrow> length (merge_rec ids pair idx) < length ids"
proof (induction ids pair idx rule: merge_rec.induct)
  case (1 x y zs pair idx)
  then show ?case using length_merge_rec[of zs pair idx]
    by (auto simp: prod_eq_iff less_Suc_eq_le)
qed auto

lemma first_best_in: "first_best better key b ys \<in> set (b # ys)"
  by (induction ys arbitrary: b) auto

lemma py_best_in: "py_best better key xs = Inr p \<Longrightarrow> p \<in> set xs"
  using first_best_in[of better key] by (auto simp: py_best_def split: list.splits)

lemma keys_bump_set: "fst ` set (bump counts p) = insert p (fst ` set counts)"
  by (simp add: bump_def dom_update)

lemma keys_foldl_bump_set:
  "fst ` set (foldl bump counts ps) = fst ` set counts \<union> set ps"
  by (induction ps arbitrary: counts) (simp_all add: keys_bump_set)

lemma keys_get_stats: "fst ` set (get_stats ids) = set (zip ids (drop 1 ids))"
  by (simp add: get_stats_def keys_foldl_bump_set)

lemma length_merge_less:
  "pair \<in> fst ` set (get_stats ids) \<Longrightarrow> length (merge ids pair idx) < length ids"
  by (simp add: keys_get_stats merge_eq_rec length_merge_rec_less)

text \<open>The \<open>while\<close> loop of \<open>encode\<close> on the bytes of one chunk.\<close>

function encode_chunk :: "merges \<Rightarrow> sym list \<Rightarrow> error + sym list" where
  "encode_chunk ms chunk_ids =
     (if 2 \<le> length chunk_ids then
        (case py_best rank_less (map_of ms) (map fst (get_stats chunk_ids)) of
           Inl e \<Rightarrow> Inl e
         | Inr pair \<Rightarrow>
             (case map_of ms pair of
                None \<Rightarrow> Inr chunk_ids
              | Some idx \<Rightarrow> encode_chunk ms (merge chunk_ids pair idx)))
      else Inr chunk_ids)"
  by pat_completeness auto

termination
proof (relation "measure (\<lambda>(ms, chunk_ids). length chunk_ids)")
  show "wf (measure (\<lambda>(ms, chunk_ids). length chunk_ids))" by simp
next
  fix ms :: merges and chunk_ids :: "sym list" and pair idx
  assume "py_best rank_less (map_of ms) (map fst (get_stats chunk_ids)) = Inr pair"
  then have "pair \<in> fst ` set (get_stats chunk_ids)"
    using py_best_in by fastforce
  then show "((ms, merge chunk_ids pair idx), (ms, chunk_ids))
        \<in> measure (\<lambda>(ms, chunk_ids). length chunk_ids)"
    by (simp add: length_merge_less)
qed

declare encode_chunk.simps [simp del]

text \<open>The \<open>for\<close> loop of \<open>encode\<close> over the chunks; \<open>ids\<close> is the list built so far.\<close>

fun encode_chunks :: "merges \<Rightarrow> str list \<Rightarrow> sym list \<Rightarrow> error + sym list" where
  "encode_chunks ms [] ids = Inr ids"
| "encode_chunks ms (chunk # rest) ids =
     (case utf8_encode chunk of
        Inl e \<Rightarrow> Inl e
      | Inr chunk_bytes \<Rightarrow>
          (case encode_chunk ms chunk_bytes of
             Inl e \<Rightarrow> Inl e
           | Inr chunk_ids \<Rightarrow> encode_chunks ms rest (ids @ chunk_ids)))"

definition encode :: "tokenizer \<Rightarrow> str \<Rightarrow> error + sym list" where
  "encode self text = encode_chunks (merges self) (findall (pattern self) text) []"

section \<open>Facts about \<open>merge\<close>\<close>

lemma merge_rec_nonempty: "merge_rec (y # zs) pair r \<noteq> []"
  by (cases zs) auto

lemma zip_tail_subset: "q \<in> set (zip zs (drop 1 zs)) \<Longrightarrow> q \<in> set (zip (y # zs) zs)"
  by (cases zs) auto

lemma hd_merge_rec:
  "merge_rec (y # zs) pair r = w # ws \<Longrightarrow> w = y \<or> w = r"
  by (cases zs) (auto split: if_splits)

lemma merge_rec_no_pair:
  "r \<noteq> fst pair \<Longrightarrow> r \<noteq> snd pair \<Longrightarrow>
     pair \<notin> set (zip (merge_rec ids pair r) (drop 1 (merge_rec ids pair r)))"
proof (induction ids pair r rule: merge_rec.induct)
  case (1 x y zs pair idx)
  show ?case
  proof (cases "x = fst pair \<and> y = snd pair")
    case True
    then show ?thesis using 1
      by (cases "merge_rec zs pair idx") (auto simp: prod_eq_iff)
  next
    case False
    obtain w ws where w: "merge_rec (y # zs) pair idx = w # ws"
      using merge_rec_nonempty[of y zs pair idx] by (auto simp: neq_Nil_conv)
    have "w = y \<or> w = idx" using hd_merge_rec[OF w] .
    then show ?thesis using False 1 w
      by (auto simp: prod_eq_iff)
  qed
qed auto

lemma set_merge_rec: "set (merge_rec ids pair r) \<subseteq> insert r (set ids)"
  by (induction ids pair r rule: merge_rec.induct) auto

lemma pairs_merge_rec:
  "q \<in> set (zip (merge_rec ids pair r) (drop 1 (merge_rec ids pair r))) \<Longrightarrow>
     q \<in> set (zip ids (drop 1 ids)) \<or> fst q = r \<or> snd q = r"
proof (induction ids pair r rule: merge_rec.induct)
  case (1 x y zs pair idx)
  show ?case
  proof (cases "x = fst pair \<and> y = snd pair")
    case True
    then show ?thesis using 1 zip_tail_subset[of q zs y]
      by (cases "merge_rec zs pair idx") (auto simp: prod_eq_iff)
  next
    case False
    obtain w ws where w: "merge_rec (y # zs) pair idx = w # ws"
      using merge_rec_nonempty[of y zs pair idx] by (auto simp: neq_Nil_conv)
    have "w = y \<or> w = idx" using hd_merge_rec[OF w] .
    then show ?thesis using False 1 w
      by (auto simp: prod_eq_iff)
  qed
qed auto

section \<open>Facts about \<open>max\<close>, \<open>min\<close> and \<open>get_stats\<close>\<close>

lemma first_best_first:
  assumes tr: "\<And>a b c. better a b \<Longrightarrow> better b c \<Longrightarrow> better a c"
    and ntr: "\<And>a b c. better a c \<Longrightarrow> better a b \<or> better b c"
    and irr: "\<And>a. \<not> better a a"
  shows "\<not> better (key b) (key (first_best better key b ys))
       \<and> (\<forall>y\<in>set ys. \<not> better (key y) (key (first_best better key b ys)))
       \<and> (first_best better key b ys = b
          \<or> (\<exists>pre post. ys = pre @ first_best better key b ys # post
                \<and> better (key (first_best better key b ys)) (key b)
                \<and> (\<forall>y\<in>set pre. better (key (first_best better key b ys)) (key y))))"
proof (induction ys arbitrary: b)
  case Nil
  show ?case by (simp add: irr)
next
  case (Cons y ys)
  show ?case
  proof (cases "better (key y) (key b)")
    case True
    let ?r = "first_best better key y ys"
    have r: "first_best better key b (y # ys) = ?r" using True by simp
    note ih = Cons.IH[of y]
    have 1: "\<not> better (key b) (key ?r)"
      using ih True tr by blast
    have 2: "\<forall>z\<in>set (y # ys). \<not> better (key z) (key ?r)"
      using ih by simp
    have rb: "better (key ?r) (key b)"
      using ih True ntr[of "key y" "key b" "key ?r"] by blast
    have 3: "\<exists>pre post. y # ys = pre @ ?r # post \<and> better (key ?r) (key b)
                \<and> (\<forall>z\<in>set pre. better (key ?r) (key z))"
    proof (cases "?r = y")
      case True
      have "y # ys = [] @ ?r # ys" using True by simp
      then show ?thesis using rb by fastforce
    next
      case False
      with ih obtain pre post where p: "ys = pre @ ?r # post" "better (key ?r) (key y)"
        "\<forall>z\<in>set pre. better (key ?r) (key z)" by blast
      then have "y # ys = (y # pre) @ ?r # post" by simp
      moreover have "\<forall>z\<in>set (y # pre). better (key ?r) (key z)" using p by simp
      ultimately show ?thesis using rb by blast
    qed
    show ?thesis unfolding r using 1 2 3 by blast
  next
    case False
    let ?r = "first_best better key b ys"
    have r: "first_best better key b (y # ys) = ?r" using False by simp
    note ih = Cons.IH[of b]
    have 1: "\<not> better (key y) (key ?r)"
      using ih False ntr[of "key y" "key ?r" "key b"] by blast
    have 3: "?r = b \<or> (\<exists>pre post. y # ys = pre @ ?r # post \<and> better (key ?r) (key b)
                \<and> (\<forall>z\<in>set pre. better (key ?r) (key z)))"
    proof (cases "?r = b")
      case True then show ?thesis by simp
    next
      case nb: False
      with ih obtain pre post where p: "ys = pre @ ?r # post" "better (key ?r) (key b)"
        "\<forall>z\<in>set pre. better (key ?r) (key z)" by blast
      have "better (key ?r) (key y)"
        using p(2) False ntr[of "key ?r" "key b" "key y"] tr
        by (metis ntr)
      then have "\<forall>z\<in>set (y # pre). better (key ?r) (key z)" using p by simp
      moreover have "y # ys = (y # pre) @ ?r # post" using p by simp
      ultimately show ?thesis using p(2) by blast
    qed
    show ?thesis unfolding r using ih 1 3 by auto
  qed
qed

lemma keys_bump:
  "map fst (bump counts p) = (if p \<in> set (map fst counts) then map fst counts else map fst counts @ [p])"
  by (simp add: bump_def update_keys image_iff) 

lemma map_of_bump:
  "map_of (bump counts p) = (map_of counts)(p \<mapsto> (case map_of counts p of None \<Rightarrow> 0 | Some c \<Rightarrow> c) + 1)"
  by (simp add: bump_def update_conv')

lemma map_of_foldl_bump:
  "map_of (foldl bump counts ps) q =
     (if q \<in> set ps then Some ((case map_of counts q of None \<Rightarrow> 0 | Some c \<Rightarrow> c) + count_list ps q)
      else map_of counts q)"
proof (induction ps arbitrary: counts)
  case Nil
  show ?case by simp
next
  case (Cons p ps)
  show ?case
    by (simp add: Cons.IH map_of_bump)
qed

lemma map_of_get_stats:
  "map_of (get_stats ids) q =
     (if q \<in> set (zip ids (drop 1 ids)) then Some (count_list (zip ids (drop 1 ids)) q) else None)"
  by (simp add: get_stats_def map_of_foldl_bump)

text \<open>The keys of the counts stand in the order of their first occurrence.\<close>

lemma keys_order:
  "map fst (foldl bump [] ps) = pre @ r # post \<Longrightarrow>
     \<exists>pre' post'. ps = pre' @ r # post' \<and> r \<notin> set pre' \<and> set pre' \<subseteq> set pre"
proof (induction ps arbitrary: post rule: rev_induct)
  case Nil
  then show ?case by simp
next
  case (snoc x xs)
  let ?ks = "map fst (foldl bump [] xs)"
  have ks: "set ?ks = set xs" using keys_foldl_bump_set[of "[]" xs] by simp
  show ?case
  proof (cases "x \<in> set ?ks")
    case True
    then have "?ks = pre @ r # post" using snoc.prems by (simp add: keys_bump)
    from snoc.IH[OF this] obtain pre' post' where "xs = pre' @ r # post'" "r \<notin> set pre'" "set pre' \<subseteq> set pre"
      by blast
    then have "xs @ [x] = pre' @ r # (post' @ [x])" by simp
    then show ?thesis using \<open>r \<notin> set pre'\<close> \<open>set pre' \<subseteq> set pre\<close> by blast
  next
    case False
    then have e: "?ks @ [x] = pre @ r # post" using snoc.prems by (simp add: keys_bump)
    show ?thesis
    proof (cases post rule: rev_cases)
      case Nil
      then have "?ks = pre" "r = x" using e by auto
      then have "xs @ [x] = xs @ r # []" "r \<notin> set xs" "set xs \<subseteq> set pre" using False ks by auto
      then show ?thesis by blast
    next
      case (snoc post0 z)
      then have "?ks = pre @ r # post0" using e by auto
      from snoc.IH[OF this] obtain pre' post' where "xs = pre' @ r # post'" "r \<notin> set pre'" "set pre' \<subseteq> set pre"
        by blast
      then have "xs @ [x] = pre' @ r # (post' @ [x])" by simp
      then show ?thesis using \<open>r \<notin> set pre'\<close> \<open>set pre' \<subseteq> set pre\<close> by blast
    qed
  qed
qed

lemma first_best_cong:
  "(\<And>y z. y \<in> set (b # ys) \<Longrightarrow> z \<in> set (b # ys) \<Longrightarrow>
      better (key y) (key z) = better' (key' y) (key' z)) \<Longrightarrow>
   first_best better key b ys = first_best better' key' b ys"
proof (induction ys arbitrary: b)
  case Nil
  show ?case by simp
next
  case (Cons y ys)
  have c: "better (key y) (key b) = better' (key' y) (key' b)"
    using Cons.prems by simp
  show ?case
  proof (cases "better (key y) (key b)")
    case True
    have "first_best better key y ys = first_best better' key' y ys"
      by (rule Cons.IH) (use Cons.prems in auto)
    then show ?thesis using True c by simp
  next
    case False
    have "first_best better key b ys = first_best better' key' b ys"
      by (rule Cons.IH) (use Cons.prems in auto)
    then show ?thesis using False c by simp
  qed
qed

lemma takeWhile_upto_first:
  "r \<notin> set pre \<Longrightarrow> takeWhile (\<lambda>q. q \<noteq> r) (pre @ r # post) = pre"
  by (induction pre) auto

lemma takeWhile_past:
  "q \<notin> set pre \<Longrightarrow> q \<noteq> r \<Longrightarrow>
     length pre < length (takeWhile (\<lambda>x. x \<noteq> q) (pre @ r # post))"
  by (induction pre) auto

lemma first_pos_split:
  "ps = pre @ r # post \<Longrightarrow> r \<notin> set pre \<Longrightarrow> first_pos ps r = length pre"
  by (simp add: first_pos_def takeWhile_upto_first)

lemma first_pos_after:
  "ps = pre @ r # post \<Longrightarrow> q \<notin> set pre \<Longrightarrow> q \<noteq> r \<Longrightarrow> length pre < first_pos ps q"
  by (simp add: first_pos_def takeWhile_past)

lemma max_pair_first:
  assumes len: "2 \<le> length ids"
  shows "\<exists>p. py_best count_greater (map_of (get_stats ids)) (map fst (get_stats ids)) = Inr p
      \<and> p \<in> set (zip ids (drop 1 ids))
      \<and> (\<forall>q\<in>set (zip ids (drop 1 ids)).
            count_list (zip ids (drop 1 ids)) q \<le> count_list (zip ids (drop 1 ids)) p)
      \<and> (\<forall>q\<in>set (zip ids (drop 1 ids)).
            q \<noteq> p \<and> count_list (zip ids (drop 1 ids)) q = count_list (zip ids (drop 1 ids)) p
            \<longrightarrow> first_pos (zip ids (drop 1 ids)) p < first_pos (zip ids (drop 1 ids)) q)"
proof -
  let ?ps = "zip ids (drop 1 ids)"
  let ?st = "get_stats ids"
  let ?ks = "map fst ?st"
  let ?c = "count_list ?ps"
  have ks_set: "set ?ks = set ?ps" using keys_get_stats[of ids] by simp
  have "?ps \<noteq> []" using len by (cases ids; cases "tl ids") auto
  then have "?ks \<noteq> []" using ks_set by (metis set_empty)
  then obtain x xs where ks: "?ks = x # xs" by (cases ?ks) auto
  let ?r = "first_best count_greater (map_of ?st) x xs"
  have key: "\<And>y. y \<in> set (x # xs) \<Longrightarrow> map_of ?st y = Some (?c y)"
    using ks ks_set by (auto simp: map_of_get_stats)
  have r_eq: "?r = first_best (\<lambda>a b. b < a) ?c x xs"
    by (rule first_best_cong) (simp add: key count_greater_def)
  let ?r' = "first_best (\<lambda>a b. b < a) ?c x xs"
  have fb: "\<not> ?c ?r' < ?c x \<and> (\<forall>y\<in>set xs. \<not> ?c ?r' < ?c y)
       \<and> (?r' = x \<or> (\<exists>pre post. xs = pre @ ?r' # post \<and> ?c x < ?c ?r'
              \<and> (\<forall>y\<in>set pre. ?c y < ?c ?r')))"
    using first_best_first[of "\<lambda>a b. (b::nat) < a" ?c x xs] by force
  have best: "py_best count_greater (map_of ?st) ?ks = Inr ?r'"
    using ks r_eq by (simp add: py_best_def)
  have r_in: "?r' \<in> set ?ps"
    using first_best_in[of "\<lambda>a b. b < a" ?c x xs] ks ks_set by metis
  have mx: "\<forall>q\<in>set ?ps. ?c q \<le> ?c ?r'"
    using fb ks ks_set by (metis linorder_not_less set_ConsD)
  have "\<exists>pre post. ?ks = pre @ ?r' # post \<and> (\<forall>y\<in>set pre. ?c y < ?c ?r')"
  proof (cases "?r' = x")
    case True
    then have "?ks = [] @ ?r' # xs" using ks by simp
    then show ?thesis by fastforce
  next
    case False
    with fb obtain pre post where "xs = pre @ ?r' # post" "?c x < ?c ?r'" "\<forall>y\<in>set pre. ?c y < ?c ?r'"
      by blast
    then have "?ks = (x # pre) @ ?r' # post" "\<forall>y\<in>set (x # pre). ?c y < ?c ?r'"
      using ks by auto
    then show ?thesis by blast
  qed
  then obtain pre post where pp: "?ks = pre @ ?r' # post" "\<forall>y\<in>set pre. ?c y < ?c ?r'"
    by blast
  from keys_order[of ?ps pre ?r' post] pp(1)
  obtain pre' post' where sp: "?ps = pre' @ ?r' # post'" "?r' \<notin> set pre'" "set pre' \<subseteq> set pre"
    unfolding get_stats_def by blast
  have tie: "\<forall>q\<in>set ?ps. q \<noteq> ?r' \<and> ?c q = ?c ?r' \<longrightarrow> first_pos ?ps ?r' < first_pos ?ps q"
  proof (intro ballI impI)
    fix q assume "q \<in> set ?ps" and q: "q \<noteq> ?r' \<and> ?c q = ?c ?r'"
    have "q \<notin> set pre'"
    proof
      assume "q \<in> set pre'"
      then have "q \<in> set pre" using sp(3) by blast
      then have "?c q < ?c ?r'" using pp(2) by blast
      then show False using q by simp
    qed
    then have "length pre' < first_pos ?ps q" using first_pos_after[OF sp(1)] q by blast
    then show "first_pos ?ps ?r' < first_pos ?ps q"
      using first_pos_split[OF sp(1) sp(2)] by simp
  qed
  show ?thesis using best r_in mx tie by blast
qed

lemma get_stats_nonempty: "2 \<le> length ids \<Longrightarrow> get_stats ids \<noteq> []"
proof -
  assume "2 \<le> length ids"
  then have "zip ids (drop 1 ids) \<noteq> []" by (cases ids; cases "tl ids") auto
  then have "fst ` set (get_stats ids) \<noteq> {}" by (simp add: keys_get_stats)
  then show ?thesis by auto
qed

lemma get_stats_short: "length ids < 2 \<Longrightarrow> get_stats ids = []"
  by (cases ids; cases "tl ids") (auto simp: get_stats_def)

lemma get_stats_example: "get_stats [1, 2, 1, 2, 3, 4, 3, 4] = [((1,2),2), ((2,1),1), ((2,3),1), ((3,4),2), ((4,3),1)]"
  by (simp add: get_stats_def bump_def)

section \<open>Facts about the training loop\<close>

lemma pair_syms:
  "p \<in> set (zip ids (drop 1 ids)) \<Longrightarrow> fst p \<in> set ids \<and> snd p \<in> set ids"
  by (metis in_set_dropD prod.collapse set_zip_leftD set_zip_rightD)

lemma update_fresh: "k \<notin> fst ` set al \<Longrightarrow> AList.update k v al = al @ [(k, v)]"
  by (induction al) auto

lemma entry_ok_upd:
  "entry_ok vc e \<Longrightarrow> fst (fst e) \<noteq> idx \<Longrightarrow> snd (fst e) \<noteq> idx \<Longrightarrow> snd e \<noteq> idx \<Longrightarrow>
     entry_ok (vc(idx \<mapsto> bs)) e"
  by (auto simp: entry_ok_def split: prod.splits)

lemma loop_inv_step:
  assumes inv: "loop_inv i ids ms vc"
    and pr: "pair \<in> set (zip ids (drop 1 ids))"
  shows "\<exists>left right. vc (fst pair) = Some left \<and> vc (snd pair) = Some right
      \<and> AList.update pair (256 + int i) ms = ms @ [(pair, 256 + int i)]
      \<and> loop_inv (Suc i) (merge ids pair (256 + int i)) (ms @ [(pair, 256 + int i)])
           (vc(256 + int i \<mapsto> left @ right))"
proof -
  let ?idx = "256 + int i"
  have base: "base_ok vc"
    and idsb: "\<forall>x\<in>set ids. x < ?idx \<and> vc x \<noteq> None"
    and ent: "\<forall>e\<in>set ms. fst (fst e) < snd e \<and> snd (fst e) < snd e
            \<and> 256 \<le> snd e \<and> snd e < ?idx \<and> entry_ok vc e
            \<and> fst e \<notin> set (zip ids (drop 1 ids))"
    and dist: "distinct (map fst ms)"
    and srt: "sorted_wrt (<) (map snd ms)"
    using inv unfolding loop_inv_def by blast+
  have ps: "fst pair \<in> set ids" "snd pair \<in> set ids" using pair_syms[OF pr] by blast+
  then obtain left right where lr: "vc (fst pair) = Some left" "vc (snd pair) = Some right"
    using idsb by blast
  have lt: "fst pair < ?idx" "snd pair < ?idx" using ps idsb by blast+
  have fresh: "pair \<notin> fst ` set ms" using ent pr by force
  have upd: "AList.update pair ?idx ms = ms @ [(pair, ?idx)]" by (rule update_fresh[OF fresh])
  let ?ids' = "merge ids pair ?idx"
  let ?vc' = "vc(?idx \<mapsto> left @ right)"
  have b': "base_ok ?vc'" using base by (simp add: base_ok_def)
  have i': "\<forall>x\<in>set ?ids'. x < 256 + int (Suc i) \<and> ?vc' x \<noteq> None"
  proof
    fix x assume "x \<in> set ?ids'"
    then have "x = ?idx \<or> x \<in> set ids"
      using set_merge_rec[of ids pair ?idx] by (auto simp: merge_eq_rec)
    then show "x < 256 + int (Suc i) \<and> ?vc' x \<noteq> None"
      using idsb by auto
  qed
  have nopair: "pair \<notin> set (zip ?ids' (drop 1 ?ids'))"
    using merge_rec_no_pair[of ?idx pair ids] lt by (simp add: merge_eq_rec)
  have old: "fst (fst e) < snd e \<and> snd (fst e) < snd e
            \<and> 256 \<le> snd e \<and> snd e < 256 + int (Suc i) \<and> entry_ok ?vc' e
            \<and> fst e \<notin> set (zip ?ids' (drop 1 ?ids'))" if e: "e \<in> set ms" for e
  proof -
    have h: "fst (fst e) < snd e" "snd (fst e) < snd e" "256 \<le> snd e" "snd e < ?idx"
      "entry_ok vc e" "fst e \<notin> set (zip ids (drop 1 ids))"
      using ent e by blast+
    have eo: "entry_ok ?vc' e"
      by (rule entry_ok_upd) (use h in auto)
    have "fst e \<notin> set (zip ?ids' (drop 1 ?ids'))"
    proof
      assume "fst e \<in> set (zip ?ids' (drop 1 ?ids'))"
      then have "fst e \<in> set (zip ids (drop 1 ids)) \<or> fst (fst e) = ?idx \<or> snd (fst e) = ?idx"
        using pairs_merge_rec[of "fst e" ids pair ?idx] by (simp add: merge_eq_rec)
      then show False using h by auto
    qed
    then show ?thesis using h eo by auto
  qed
  have new: "fst pair < ?idx \<and> snd pair < ?idx \<and> 256 \<le> ?idx \<and> ?idx < 256 + int (Suc i)
      \<and> entry_ok ?vc' (pair, ?idx)"
    using lt lr by (cases pair) (auto simp: entry_ok_def)
  have e': "\<forall>e\<in>set (ms @ [(pair, ?idx)]). fst (fst e) < snd e \<and> snd (fst e) < snd e
            \<and> 256 \<le> snd e \<and> snd e < 256 + int (Suc i) \<and> entry_ok ?vc' e
            \<and> fst e \<notin> set (zip ?ids' (drop 1 ?ids'))"
  proof
    fix e assume "e \<in> set (ms @ [(pair, ?idx)])"
    then consider "e \<in> set ms" | "e = (pair, ?idx)" by auto
    then show "fst (fst e) < snd e \<and> snd (fst e) < snd e
            \<and> 256 \<le> snd e \<and> snd e < 256 + int (Suc i) \<and> entry_ok ?vc' e
            \<and> fst e \<notin> set (zip ?ids' (drop 1 ?ids'))"
    proof cases
      case 1 then show ?thesis using old by blast
    next
      case 2 then show ?thesis using new nopair by simp
    qed
  qed
  have d': "distinct (map fst (ms @ [(pair, ?idx)]))" using dist fresh by simp
  have "\<forall>v\<in>set (map snd ms). v < ?idx" using ent by auto
  then have s': "sorted_wrt (<) (map snd (ms @ [(pair, ?idx)]))"
    using srt by (simp add: sorted_wrt_append)
  have "loop_inv (Suc i) ?ids' (ms @ [(pair, ?idx)]) ?vc'"
    unfolding loop_inv_def using b' i' e' d' s' by blast
  then show ?thesis using lr upd by blast
qed

lemma train_loop_total:
  "loop_inv i ids ms vc \<Longrightarrow>
     \<exists>ids' ms' vc' j. train_loop [i ..< n] ids ms vc = Inr (ids', ms', vc')
        \<and> loop_inv j ids' ms' vc' \<and> (ids' = [] \<longleftrightarrow> ids = [])"
proof (induction "n - i" arbitrary: i ids ms vc)
  case 0
  then have "[i ..< n] = []" by simp
  then show ?case using 0 by auto
next
  case (Suc k)
  then have up: "[i ..< n] = i # [Suc i ..< n]" by (simp add: upt_rec)
  show ?case
  proof (cases "get_stats ids = []")
    case True
    then show ?thesis using Suc.prems up by auto
  next
    case False
    then have len: "2 \<le> length ids" using get_stats_short[of ids] by force
    from max_pair_first[OF len] obtain p where
      p: "py_best count_greater (map_of (get_stats ids)) (map fst (get_stats ids)) = Inr p"
      and pin: "p \<in> set (zip ids (drop 1 ids))" by blast
    from loop_inv_step[OF Suc.prems pin] obtain left right where
      lr: "vc (fst p) = Some left" "vc (snd p) = Some right"
      and upd: "AList.update p (256 + int i) ms = ms @ [(p, 256 + int i)]"
      and inv': "loop_inv (Suc i) (merge ids p (256 + int i)) (ms @ [(p, 256 + int i)])
           (vc(256 + int i \<mapsto> left @ right))" by blast
    have step: "train_loop [i ..< n] ids ms vc =
        train_loop [Suc i ..< n] (merge ids p (256 + int i)) (ms @ [(p, 256 + int i)])
           (vc(256 + int i \<mapsto> left @ right))"
      unfolding up using False p lr upd by (simp add: Let_def)
    have k: "k = n - Suc i" using Suc.hyps(2) by simp
    have ne: "merge ids p (256 + int i) \<noteq> []" "ids \<noteq> []"
      using len merge_rec_nonempty by (cases ids; auto simp: merge_eq_rec)+
    from Suc.hyps(1)[OF k inv'] show ?thesis unfolding step using ne by auto
  qed
qed

lemma utf8_char_bytes: "utf8_char c = Inr bs \<Longrightarrow> \<forall>b\<in>set bs. 0 \<le> b \<and> b < 256"
  by (auto simp: utf8_char_def split: if_splits)

lemma utf8_encode_bytes: "utf8_encode s = Inr bs \<Longrightarrow> \<forall>b\<in>set bs. 0 \<le> b \<and> b < 256"
proof (induction s arbitrary: bs)
  case Nil
  then show ?case by simp
next
  case (Cons c cs)
  then obtain x y where "utf8_char c = Inr x" "utf8_encode cs = Inr y" "bs = x @ y"
    by (auto split: sum.splits)
  then show ?case using Cons.IH[of y] utf8_char_bytes[of c x] by auto
qed

lemma utf8_chunks_bytes:
  "utf8_chunks chunks = Inr bss \<Longrightarrow> \<forall>b\<in>set (concat bss). 0 \<le> b \<and> b < 256"
proof (induction chunks arbitrary: bss)
  case Nil
  then show ?case by simp
next
  case (Cons c cs)
  then obtain x y where "utf8_encode c = Inr x" "utf8_chunks cs = Inr y" "bss = x # y"
    by (auto split: sum.splits)
  then show ?case using Cons.IH[of y] utf8_encode_bytes[of c x] by auto
qed

lemma loop_inv_start:
  "base_ok vc \<Longrightarrow> \<forall>b\<in>set ids. 0 \<le> b \<and> b < 256 \<Longrightarrow> loop_inv 0 ids [] vc"
  by (auto simp: loop_inv_def base_ok_def)

lemma loop_inv_tok_ok:
  "loop_inv j ids ms vc \<Longrightarrow> tok_ok (self\<lparr>merges := ms, vocab := vc\<rparr>)"
  by (auto simp: loop_inv_def tok_ok_def)

lemma init_tok_ok: "init cl vs = Inr self \<Longrightarrow> tok_ok self \<and> pattern self = hindi_pattern cl"
  by (auto simp: init_def tok_ok_def base_ok_def base_vocab_def split: if_splits)

lemma train_tok_ok:
  assumes "base_ok (vocab self)" and "train self text verbose = Inr t"
  shows "tok_ok t \<and> pattern t = pattern self \<and> vocab_size t = vocab_size self"
proof -
  from assms(2) obtain bss where bss: "utf8_chunks (findall (pattern self) text) = Inr bss"
    by (auto simp: train_def Let_def split: sum.splits)
  have "loop_inv 0 (concat bss) [] (vocab self)"
    using loop_inv_start[OF assms(1)] utf8_chunks_bytes[OF bss] by blast
  from train_loop_total[OF this, of "nat (vocab_size self - 256)"]
  obtain ids' ms' vc' j where
    tl: "train_loop [0 ..< nat (vocab_size self - 256)] (concat bss) [] (vocab self) = Inr (ids', ms', vc')"
    and inv: "loop_inv j ids' ms' vc'" by blast
  have "t = self\<lparr>merges := ms', vocab := vc'\<rparr>"
    using assms(2) bss tl by (auto simp: train_def Let_def split: if_splits)
  then show ?thesis using loop_inv_tok_ok[OF inv, of self] by simp
qed

lemma tok_ok_base: "tok_ok self \<Longrightarrow> base_ok (vocab self)"
  by (simp add: tok_ok_def)

section \<open>Facts about the pattern and \<open>findall\<close>\<close>

lemma cands_Plus_set: "set (cands (Plus P) s) = {1 .. length (takeWhile P s)}"
  by auto

lemma cands_Plus_nonempty: "P c \<Longrightarrow> cands (Plus P) (c # cs) \<noteq> []"
  by simp

lemma cands_Seq_set:
  "set (cands (Seq a b) s) = {i + j | i j. i \<in> set (cands a s) \<and> j \<in> set (cands b (drop i s))}"
  by auto

lemma zero_in_opt_space: "0 \<in> set (cands opt_space s)"
  by (simp add: opt_space_def)

lemma cands_space_Plus_pos: "\<forall>n\<in>set (cands (Seq opt_space (Plus P)) s). 0 < n"
  unfolding cands_Seq_set cands_Plus_set by auto

lemma cands_space_Plus_nonempty: "P c \<Longrightarrow> cands (Seq opt_space (Plus P)) (c # cs) \<noteq> []"
proof -
  assume "P c"
  then have "1 \<in> set (cands (Plus P) (drop 0 (c # cs)))" unfolding cands_Plus_set by simp
  then have "0 + 1 \<in> set (cands (Seq opt_space (Plus P)) (c # cs))"
    unfolding cands_Seq_set using zero_in_opt_space by blast
  then show ?thesis by (metis empty_iff empty_set)
qed

lemma cands_Plus_look_pos: "\<forall>n\<in>set (cands (Seq (Plus P) (NotAhead Q)) s). 0 < n"
  unfolding cands_Seq_set cands_Plus_set by auto

lemma cands_Plus_pos: "\<forall>n\<in>set (cands (Plus P) s). 0 < n"
  unfolding cands_Plus_set by auto

lemma cands_Alt_pos:
  "\<forall>n\<in>set (cands a s). 0 < n \<Longrightarrow> \<forall>n\<in>set (cands b s). 0 < n \<Longrightarrow>
     \<forall>n\<in>set (cands (Alt a b) s). 0 < n"
  by auto

lemma cands_Alt_left: "cands a s \<noteq> [] \<Longrightarrow> cands (Alt a b) s \<noteq> []"
  by simp

lemma cands_Alt_right: "cands b s \<noteq> [] \<Longrightarrow> cands (Alt a b) s \<noteq> []"
  by simp

lemma pattern_cands_pos: "\<forall>n\<in>set (cands (hindi_pattern cl) s). 0 < n"
  unfolding hindi_pattern_def
  by (intro cands_Alt_pos cands_space_Plus_pos cands_Plus_look_pos cands_Plus_pos)

lemma pattern_cands_nonempty: "cands (hindi_pattern cl) (c # cs) \<noteq> []"
proof -
  consider (sp) "is_space cl c" | (l) "is_L cl c" | (n) "is_N cl c"
    | (o) "\<not> (is_space cl c \<or> is_L cl c \<or> is_N cl c)" by blast
  then show ?thesis
  proof cases
    case sp
    show ?thesis unfolding hindi_pattern_def
      by (rule cands_Alt_right, rule cands_Alt_right, rule cands_Alt_right,
          rule cands_Alt_right, rule cands_Alt_right, rule cands_Alt_right,
          rule cands_Plus_nonempty, rule sp)
  next
    case l
    show ?thesis unfolding hindi_pattern_def
      by (rule cands_Alt_right, rule cands_Alt_right, rule cands_Alt_left,
          rule cands_space_Plus_nonempty, rule l)
  next
    case n
    show ?thesis unfolding hindi_pattern_def
      by (rule cands_Alt_right, rule cands_Alt_right, rule cands_Alt_right,
          rule cands_Alt_left, rule cands_space_Plus_nonempty, rule n)
  next
    case o
    show ?thesis unfolding hindi_pattern_def
      by (rule cands_Alt_right, rule cands_Alt_right, rule cands_Alt_right,
          rule cands_Alt_right, rule cands_Alt_left, rule cands_space_Plus_nonempty, rule o)
  qed
qed

lemma pattern_match_pos: "match_at (hindi_pattern cl) s = Some n \<Longrightarrow> 0 < n"
proof -
  assume "match_at (hindi_pattern cl) s = Some n"
  then have "n \<in> set (cands (hindi_pattern cl) s)"
    by (auto simp: match_at_def split: list.splits)
  then show ?thesis using pattern_cands_pos by blast
qed

lemma pattern_match_some: "s \<noteq> [] \<Longrightarrow> \<exists>n. match_at (hindi_pattern cl) s = Some n"
proof -
  assume "s \<noteq> []"
  then obtain c cs where "s = c # cs" by (cases s) auto
  then have "cands (hindi_pattern cl) s \<noteq> []" using pattern_cands_nonempty by simp
  then show ?thesis by (cases "cands (hindi_pattern cl) s") (auto simp: match_at_def)
qed

lemma findall_concat:
  assumes pos: "\<And>s n. match_at r s = Some n \<Longrightarrow> 0 < n"
    and some: "\<And>s. s \<noteq> [] \<Longrightarrow> \<exists>n. match_at r s = Some n"
  shows "concat (findall r s) = s \<and> [] \<notin> set (findall r s)"
proof (induction s rule: length_induct)
  case (1 s)
  show ?case
  proof (cases s)
    case Nil
    then show ?thesis by simp
  next
    case (Cons c cs)
    have "c # cs \<noteq> []" by simp
    from some[OF this] obtain n where n: "match_at r (c # cs) = Some n" by blast
    then have p: "0 < n" using pos by blast
    have "length (drop n (c # cs)) < length s" using p Cons by simp
    then have ih: "concat (findall r (drop n (c # cs))) = drop n (c # cs)
        \<and> [] \<notin> set (findall r (drop n (c # cs)))"
      using 1 by blast
    have f: "findall r (c # cs) = take n (c # cs) # findall r (drop n (c # cs))"
      using n p by simp
    have "take n (c # cs) \<noteq> []" using p by (cases n) auto
    then show ?thesis unfolding Cons f using ih by (simp del: take_Suc_Cons drop_Suc_Cons)
  qed
qed

lemma findall_example:
  "findall (hindi_pattern ascii_classes) [0x61, 0x62, 0x20, 0x20, 0x63, 0x31, 0x32, 0x20, 0x2E, 0x20, 0x20]
     = [[0x61, 0x62], [0x20], [0x20, 0x63], [0x31, 0x32], [0x20, 0x2E], [0x20, 0x20]]"
  by code_simp

section \<open>Facts about \<open>decode\<close>\<close>

lemma join_vocab_Inl:
  "join_vocab vc ids = Inl e \<longleftrightarrow> e = KeyError \<and> (\<exists>i\<in>set ids. vc i = None)"
  by (induction ids) (auto split: option.splits sum.splits)

lemma join_vocab_Inr:
  "\<forall>i\<in>set ids. vc i \<noteq> None \<Longrightarrow>
     join_vocab vc ids = Inr (concat (map (\<lambda>i. the (vc i)) ids))"
  by (induction ids) (auto split: option.splits sum.splits)

section \<open>Facts about UTF-8\<close>

lemma dec1:
  "0 \<le> b0 \<Longrightarrow> b0 < 0x80 \<Longrightarrow> utf8_decode (b0 # rest) = nat b0 # utf8_decode rest"
  by simp

lemma dec2:
  "0xC2 \<le> b0 \<Longrightarrow> b0 \<le> 0xDF \<Longrightarrow> is_cont b1 \<Longrightarrow>
     utf8_decode (b0 # b1 # rest) = nat ((b0 - 0xC0) * 64 + (b1 - 0x80)) # utf8_decode rest"
  by simp

lemma dec3:
  "0xE0 \<le> b0 \<Longrightarrow> b0 \<le> 0xEF \<Longrightarrow> second_ok b0 b1 \<Longrightarrow> is_cont b2 \<Longrightarrow>
     utf8_decode (b0 # b1 # b2 # rest) =
       nat ((b0 - 0xE0) * 4096 + (b1 - 0x80) * 64 + (b2 - 0x80)) # utf8_decode rest"
  by simp

lemma dec4:
  "0xF0 \<le> b0 \<Longrightarrow> b0 \<le> 0xF4 \<Longrightarrow> second_ok b0 b1 \<Longrightarrow> is_cont b2 \<Longrightarrow> is_cont b3 \<Longrightarrow>
     utf8_decode (b0 # b1 # b2 # b3 # rest) =
       nat ((b0 - 0xF0) * 262144 + (b1 - 0x80) * 4096 + (b2 - 0x80) * 64 + (b3 - 0x80))
         # utf8_decode rest"
  by simp

lemma cont_mod: "is_cont (int (0x80 + n mod 64))"
  by (simp add: is_cont_def)

lemma div_lo: "k * n \<le> c \<Longrightarrow> 0 < n \<Longrightarrow> k \<le> c div (n::nat)"
  by (simp add: less_eq_div_iff_mult_less_eq)

lemma div_hi: "c < k * n \<Longrightarrow> 0 < n \<Longrightarrow> c div (n::nat) < k"
  by (simp add: div_less_iff_less_mult)

lemma dm3: "(c::nat) div 4096 * 4096 + c div 64 mod 64 * 64 + c mod 64 = c"
proof -
  have a: "c div 64 div 64 = c div 4096" by (simp add: div_mult2_eq[symmetric])
  have b: "c div 64 = c div 64 div 64 * 64 + c div 64 mod 64" by simp
  have d: "c = c div 64 * 64 + c mod 64" by simp
  show ?thesis using a b d by linarith
qed

lemma dm4: "(c::nat) div 262144 * 262144 + c div 4096 mod 64 * 4096 + c div 64 mod 64 * 64 + c mod 64 = c"
proof -
  have a: "c div 4096 div 64 = c div 262144" by (simp add: div_mult2_eq[symmetric])
  have b: "c div 4096 = c div 4096 div 64 * 64 + c div 4096 mod 64" by simp
  show ?thesis using a b dm3[of c] by linarith
qed

lemma mid3_lo: "(c::nat) div 4096 = 0 \<Longrightarrow> 2048 \<le> c \<Longrightarrow> 32 \<le> c div 64 mod 64"
proof -
  assume "c div 4096 = 0" "2048 \<le> c"
  then have "c div 64 mod 64 * 64 + c mod 64 = c" using dm3[of c] by simp
  moreover have "c mod 64 < 64" by simp
  ultimately show ?thesis using \<open>2048 \<le> c\<close> by linarith
qed

lemma mid3_hi: "(c::nat) div 4096 = 13 \<Longrightarrow> c < 55296 \<Longrightarrow> c div 64 mod 64 < 32"
proof -
  assume "c div 4096 = 13" "c < 55296"
  then have "53248 + c div 64 mod 64 * 64 + c mod 64 = c" using dm3[of c] by simp
  then show ?thesis using \<open>c < 55296\<close> by linarith
qed

lemma mid4_lo: "(c::nat) div 262144 = 0 \<Longrightarrow> 65536 \<le> c \<Longrightarrow> 16 \<le> c div 4096 mod 64"
proof -
  assume "c div 262144 = 0" "65536 \<le> c"
  then have "c div 4096 mod 64 * 4096 + c div 64 mod 64 * 64 + c mod 64 = c" using dm4[of c] by simp
  moreover have "c mod 64 < 64" "c div 64 mod 64 < 64" by simp_all
  ultimately show ?thesis using \<open>65536 \<le> c\<close> by linarith
qed

lemma mid4_hi: "(c::nat) div 262144 = 4 \<Longrightarrow> c < 1114112 \<Longrightarrow> c div 4096 mod 64 < 16"
proof -
  assume "c div 262144 = 4" "c < 1114112"
  then have "1048576 + c div 4096 mod 64 * 4096 + c div 64 mod 64 * 64 + c mod 64 = c" using dm4[of c] by simp
  then show ?thesis using \<open>c < 1114112\<close> by linarith
qed

lemma two_lo: "(128::nat) \<le> c \<Longrightarrow> 2 \<le> c div 64"
  by (rule div_lo) simp_all

lemma two_hi: "c < (2048::nat) \<Longrightarrow> c div 64 \<le> 31"
  using div_hi[of c 32 64] by simp

lemma three_hi: "c < (65536::nat) \<Longrightarrow> c div 4096 \<le> 15"
  using div_hi[of c 16 4096] by simp

lemma four_hi: "c < (1114112::nat) \<Longrightarrow> c div 262144 \<le> 4"
  using div_hi[of c 5 262144] by simp

lemma dm2: "(c::nat) div 64 * 64 + c mod 64 = c"
  by simp

lemma utf8_decode_char:
  assumes "utf8_char c = Inr cb"
  shows "utf8_decode (cb @ rest) = c # utf8_decode rest"
proof -
  consider (one) "c < 0x80" | (two) "0x80 \<le> c" "c < 0x800"
    | (three) "0x800 \<le> c" "c < 0x10000" "c < 0xD800 \<or> 0xDFFF < c"
    | (four) "0x10000 \<le> c" "c < 0x110000"
    using assms by (auto simp: utf8_char_def split: if_splits)
  then show ?thesis
  proof cases
    case one
    then have "cb = [int c]" using assms by (simp add: utf8_char_def)
    then show ?thesis using one by (simp del: utf8_decode.simps add: dec1)
  next
    case two
    then have cb: "cb = [int (0xC0 + c div 64), int (0x80 + c mod 64)]"
      using assms by (auto simp: utf8_char_def split: if_splits)
    have q: "2 \<le> c div 64" "c div 64 \<le> 31" using two two_lo two_hi by simp_all
    have e: "int (c div 64) * 64 + int (c mod 64) = int c"
      using arg_cong[where f = int, OF dm2[of c]]
      by (simp only: of_nat_add of_nat_mult of_nat_numeral)
    have "(int (0xC0 + c div 64) - 0xC0) * 64 + (int (0x80 + c mod 64) - 0x80)
        = int (c div 64) * 64 + int (c mod 64)" by simp
    then have v: "nat ((int (0xC0 + c div 64) - 0xC0) * 64 + (int (0x80 + c mod 64) - 0x80)) = c"
      unfolding e by simp
    have "utf8_decode (int (0xC0 + c div 64) # int (0x80 + c mod 64) # rest) =
        nat ((int (0xC0 + c div 64) - 0xC0) * 64 + (int (0x80 + c mod 64) - 0x80))
          # utf8_decode rest"
      by (rule dec2) (use q cont_mod in simp_all)
    then show ?thesis unfolding cb v by simp
  next
    case three
    then have cb: "cb = [int (0xE0 + c div 4096), int (0x80 + c div 64 mod 64), int (0x80 + c mod 64)]"
      using assms by (auto simp: utf8_char_def split: if_splits)
    have q: "c div 4096 \<le> 15" using three three_hi by simp
    have s0: "c div 4096 = 0 \<Longrightarrow> 32 \<le> c div 64 mod 64"
      using three mid3_lo by simp
    have s13: "c div 4096 = 13 \<Longrightarrow> c div 64 mod 64 < 32"
    proof -
      assume a: "c div 4096 = 13"
      have "c < 14 * 4096" using a div_lo[of 14 4096 c] by (cases "c < 14 * 4096") simp_all
      then have "c < 0xD800" using three by simp
      then show ?thesis using a mid3_hi by simp
    qed
    have so: "second_ok (int (0xE0 + c div 4096)) (int (0x80 + c div 64 mod 64))"
    proof -
      consider "c div 4096 = 0" | "c div 4096 = 13" | "c div 4096 \<noteq> 0" "c div 4096 \<noteq> 13"
        by blast
      then show ?thesis
      proof cases
        case 1 then show ?thesis using s0 by (simp add: second_ok_def)
      next
        case 2 then show ?thesis using s13 by (simp add: second_ok_def)
      next
        case 3 then show ?thesis using q by (simp add: second_ok_def is_cont_def)
      qed
    qed
    have e: "int (c div 4096) * 4096 + int (c div 64 mod 64) * 64 + int (c mod 64) = int c"
      using arg_cong[where f = int, OF dm3[of c]]
      by (simp only: of_nat_add of_nat_mult of_nat_numeral)
    have "(int (0xE0 + c div 4096) - 0xE0) * 4096
                + (int (0x80 + c div 64 mod 64) - 0x80) * 64
                + (int (0x80 + c mod 64) - 0x80)
            = int (c div 4096) * 4096 + int (c div 64 mod 64) * 64 + int (c mod 64)"
      by simp
    then have v: "nat ((int (0xE0 + c div 4096) - 0xE0) * 4096
                + (int (0x80 + c div 64 mod 64) - 0x80) * 64
                + (int (0x80 + c mod 64) - 0x80)) = c"
      unfolding e by simp
    have "utf8_decode (int (0xE0 + c div 4096) # int (0x80 + c div 64 mod 64)
            # int (0x80 + c mod 64) # rest) =
        nat ((int (0xE0 + c div 4096) - 0xE0) * 4096
                + (int (0x80 + c div 64 mod 64) - 0x80) * 64
                + (int (0x80 + c mod 64) - 0x80)) # utf8_decode rest"
      by (rule dec3) (use q so cont_mod in simp_all)
    then show ?thesis unfolding cb v by simp
  next
    case four
    then have cb: "cb = [int (0xF0 + c div 262144), int (0x80 + c div 4096 mod 64),
                         int (0x80 + c div 64 mod 64), int (0x80 + c mod 64)]"
      using assms by (auto simp: utf8_char_def split: if_splits)
    have q: "c div 262144 \<le> 4" using four four_hi by simp
    have s0: "c div 262144 = 0 \<Longrightarrow> 16 \<le> c div 4096 mod 64"
      using four mid4_lo by simp
    have s4: "c div 262144 = 4 \<Longrightarrow> c div 4096 mod 64 < 16"
      using four mid4_hi by simp
    have so: "second_ok (int (0xF0 + c div 262144)) (int (0x80 + c div 4096 mod 64))"
    proof -
      consider "c div 262144 = 0" | "c div 262144 = 4" | "c div 262144 \<noteq> 0" "c div 262144 \<noteq> 4"
        by blast
      then show ?thesis
      proof cases
        case 1 then show ?thesis using s0 by (simp add: second_ok_def)
      next
        case 2 then show ?thesis using s4 by (simp add: second_ok_def)
      next
        case 3 then show ?thesis using q by (simp add: second_ok_def is_cont_def)
      qed
    qed
    have e: "int (c div 262144) * 262144 + int (c div 4096 mod 64) * 4096
                + int (c div 64 mod 64) * 64 + int (c mod 64) = int c"
      using arg_cong[where f = int, OF dm4[of c]]
      by (simp only: of_nat_add of_nat_mult of_nat_numeral)
    have "(int (0xF0 + c div 262144) - 0xF0) * 262144
                + (int (0x80 + c div 4096 mod 64) - 0x80) * 4096
                + (int (0x80 + c div 64 mod 64) - 0x80) * 64
                + (int (0x80 + c mod 64) - 0x80)
            = int (c div 262144) * 262144 + int (c div 4096 mod 64) * 4096
                + int (c div 64 mod 64) * 64 + int (c mod 64)"
      by simp
    then have v: "nat ((int (0xF0 + c div 262144) - 0xF0) * 262144
                + (int (0x80 + c div 4096 mod 64) - 0x80) * 4096
                + (int (0x80 + c div 64 mod 64) - 0x80) * 64
                + (int (0x80 + c mod 64) - 0x80)) = c"
      unfolding e by simp
    have "utf8_decode (int (0xF0 + c div 262144) # int (0x80 + c div 4096 mod 64)
            # int (0x80 + c div 64 mod 64) # int (0x80 + c mod 64) # rest) =
        nat ((int (0xF0 + c div 262144) - 0xF0) * 262144
                + (int (0x80 + c div 4096 mod 64) - 0x80) * 4096
                + (int (0x80 + c div 64 mod 64) - 0x80) * 64
                + (int (0x80 + c mod 64) - 0x80)) # utf8_decode rest"
      by (rule dec4) (use q so cont_mod in simp_all)
    then show ?thesis unfolding cb v by simp
  qed
qed

lemma utf8_round_trip: "utf8_encode s = Inr bs \<Longrightarrow> utf8_decode bs = s"
proof (induction s arbitrary: bs)
  case Nil
  then show ?case by simp
next
  case (Cons c cs)
  then obtain x y where x: "utf8_char c = Inr x" and y: "utf8_encode cs = Inr y" and b: "bs = x @ y"
    by (auto split: sum.splits)
  show ?case unfolding b using utf8_decode_char[OF x, of y] Cons.IH[OF y] by simp
qed

lemma utf8_char_valid:
  "(\<exists>bs. utf8_char c = Inr bs) \<longleftrightarrow> (c < 0xD800 \<or> (0xE000 \<le> c \<and> c < 0x110000))"
  by (auto simp: utf8_char_def)

lemma utf8_encode_valid: "(\<exists>bs. utf8_encode s = Inr bs) \<longleftrightarrow> valid_text s"
proof (induction s)
  case Nil
  show ?case by (simp add: valid_text_def)
next
  case (Cons c cs)
  have "(\<exists>bs. utf8_encode (c # cs) = Inr bs) \<longleftrightarrow>
      (\<exists>x. utf8_char c = Inr x) \<and> (\<exists>y. utf8_encode cs = Inr y)"
    by (auto split: sum.splits)
  then show ?case using Cons utf8_char_valid[of c] by (simp add: valid_text_def)
qed

section \<open>Facts about \<open>encode\<close>\<close>

lemma py_best_nonempty: "xs \<noteq> [] \<Longrightarrow> \<exists>p. py_best better key xs = Inr p"
  by (cases xs) (auto simp: py_best_def)

lemma encode_chunk_short: "length ids < 2 \<Longrightarrow> encode_chunk ms ids = Inr ids"
  by (subst encode_chunk.simps) simp

lemma encode_chunk_unfold:
  "2 \<le> length ids \<Longrightarrow> py_best rank_less (map_of ms) (map fst (get_stats ids)) = Inr pair \<Longrightarrow>
     encode_chunk ms ids =
       (case map_of ms pair of None \<Rightarrow> Inr ids
        | Some idx \<Rightarrow> encode_chunk ms (merge ids pair idx))"
  by (subst encode_chunk.simps) (simp only: if_True sum.case)

lemma encode_chunk_pair:
  assumes "2 \<le> length ids"
  shows "\<exists>pair. py_best rank_less (map_of ms) (map fst (get_stats ids)) = Inr pair
      \<and> pair \<in> set (zip ids (drop 1 ids))"
proof -
  have "map fst (get_stats ids) \<noteq> []" using get_stats_nonempty[OF assms] by simp
  from py_best_nonempty[OF this, of rank_less "map_of ms"] obtain pair where
    p: "py_best rank_less (map_of ms) (map fst (get_stats ids)) = Inr pair" ..
  have "pair \<in> set (map fst (get_stats ids))" by (rule py_best_in[OF p])
  then have "pair \<in> fst ` set (get_stats ids)" by simp
  then have "pair \<in> set (zip ids (drop 1 ids))" by (simp only: keys_get_stats)
  then show ?thesis using p by blast
qed

lemma encode_chunk_total:
  "\<exists>out. encode_chunk ms ids = Inr out \<and> length out \<le> length ids"
proof (induction ms ids rule: encode_chunk.induct)
  case (1 ms chunk_ids)
  show ?case
  proof (cases "2 \<le> length chunk_ids")
    case False
    then have "encode_chunk ms chunk_ids = Inr chunk_ids" by (simp add: encode_chunk_short)
    then show ?thesis by simp
  next
    case True
    from encode_chunk_pair[OF True] obtain pair where
      p: "py_best rank_less (map_of ms) (map fst (get_stats chunk_ids)) = Inr pair"
      and pin: "pair \<in> set (zip chunk_ids (drop 1 chunk_ids))" by blast
    note unf = encode_chunk_unfold[OF True p]
    show ?thesis
    proof (cases "map_of ms pair")
      case None
      then have "encode_chunk ms chunk_ids = Inr chunk_ids" using unf by simp
      then show ?thesis by simp
    next
      case (Some idx)
      have e: "encode_chunk ms chunk_ids = encode_chunk ms (merge chunk_ids pair idx)"
        using unf Some by simp
      have l: "length (merge chunk_ids pair idx) < length chunk_ids"
        using pin by (simp add: merge_eq_rec length_merge_rec_less)
      from 1[OF True p Some] obtain out where
        "encode_chunk ms (merge chunk_ids pair idx) = Inr out"
        "length out \<le> length (merge chunk_ids pair idx)" by blast
      then have "encode_chunk ms chunk_ids = Inr out \<and> length out \<le> length chunk_ids"
        using e l by simp
      then show ?thesis by blast
    qed
  qed
qed

lemma join_vocab_merge_rec:
  "vc (fst pair) = Some x \<Longrightarrow> vc (snd pair) = Some y \<Longrightarrow> vc v = Some (x @ y) \<Longrightarrow>
     join_vocab vc (merge_rec ids pair v) = join_vocab vc ids"
  by (induction ids pair v rule: merge_rec.induct) (auto split: sum.splits option.splits)

lemma encode_chunk_join:
  "\<forall>e\<in>set ms. entry_ok vc e \<Longrightarrow> encode_chunk ms ids = Inr out \<Longrightarrow>
     join_vocab vc out = join_vocab vc ids"
proof (induction ms ids rule: encode_chunk.induct)
  case (1 ms chunk_ids)
  show ?case
  proof (cases "2 \<le> length chunk_ids")
    case False
    then have "encode_chunk ms chunk_ids = Inr chunk_ids" by (simp add: encode_chunk_short)
    then show ?thesis using 1(3) by simp
  next
    case True
    from encode_chunk_pair[OF True] obtain pair where
      p: "py_best rank_less (map_of ms) (map fst (get_stats chunk_ids)) = Inr pair" by blast
    note unf = encode_chunk_unfold[OF True p]
    show ?thesis
    proof (cases "map_of ms pair")
      case None
      then have "encode_chunk ms chunk_ids = Inr chunk_ids" using unf by simp
      then show ?thesis using 1(3) by simp
    next
      case (Some idx)
      have e: "encode_chunk ms (merge chunk_ids pair idx) = Inr out"
        using unf Some 1(3) by simp
      have "(pair, idx) \<in> set ms" using Some by (rule map_of_SomeD)
      then have "entry_ok vc (pair, idx)" using 1(2) by blast
      then obtain x y where "vc (fst pair) = Some x" "vc (snd pair) = Some y" "vc idx = Some (x @ y)"
        by (cases pair) (auto simp: entry_ok_def)
      then have "join_vocab vc (merge chunk_ids pair idx) = join_vocab vc chunk_ids"
        by (simp add: merge_eq_rec join_vocab_merge_rec)
      then show ?thesis using 1(1)[OF True p Some 1(2) e] by simp
    qed
  qed
qed

lemma join_vocab_append:
  "join_vocab vc (xs @ ys) =
     (case join_vocab vc xs of
        Inl e \<Rightarrow> Inl e
      | Inr a \<Rightarrow> (case join_vocab vc ys of Inl e \<Rightarrow> Inl e | Inr b \<Rightarrow> Inr (a @ b)))"
  by (induction xs) (auto split: sum.splits option.splits)

lemma join_vocab_bytes:
  "base_ok vc \<Longrightarrow> \<forall>b\<in>set bs. 0 \<le> b \<and> b < 256 \<Longrightarrow> join_vocab vc bs = Inr bs"
  by (induction bs) (auto simp: base_ok_def)

lemma encode_chunks_ok:
  assumes ok: "base_ok vc" "\<forall>e\<in>set ms. entry_ok vc e"
  shows "utf8_chunks chunks = Inr bss \<Longrightarrow> join_vocab vc acc = Inr accb \<Longrightarrow>
     \<exists>out. encode_chunks ms chunks acc = Inr out
        \<and> join_vocab vc out = Inr (accb @ concat bss)
        \<and> length out \<le> length acc + length (concat bss)"
proof (induction chunks arbitrary: bss acc accb)
  case Nil
  then show ?case by auto
next
  case (Cons c cs)
  from Cons.prems(1) obtain x y where
    x: "utf8_encode c = Inr x" and y: "utf8_chunks cs = Inr y" and b: "bss = x # y"
    by (auto split: sum.splits)
  from encode_chunk_total[of ms x] obtain o1 where
    o1: "encode_chunk ms x = Inr o1" "length o1 \<le> length x" by blast
  have "join_vocab vc o1 = join_vocab vc x" using encode_chunk_join[OF ok(2) o1(1)] .
  also have "\<dots> = Inr x" using join_vocab_bytes[OF ok(1) utf8_encode_bytes[OF x]] .
  finally have j1: "join_vocab vc o1 = Inr x" .
  have j: "join_vocab vc (acc @ o1) = Inr (accb @ x)"
    using Cons.prems(2) j1 by (simp add: join_vocab_append)
  from Cons.IH[OF y j] obtain out where
    "encode_chunks ms cs (acc @ o1) = Inr out"
    "join_vocab vc out = Inr ((accb @ x) @ concat y)"
    "length out \<le> length (acc @ o1) + length (concat y)" by blast
  then show ?case using x o1 b by auto
qed

lemma utf8_encode_append:
  "utf8_encode (xs @ ys) =
     (case utf8_encode xs of
        Inl e \<Rightarrow> Inl e
      | Inr a \<Rightarrow> (case utf8_encode ys of Inl e \<Rightarrow> Inl e | Inr b \<Rightarrow> Inr (a @ b)))"
  by (induction xs) (auto split: sum.splits)

lemma utf8_chunks_concat:
  "utf8_encode (concat chunks) = Inr bs \<Longrightarrow>
     \<exists>bss. utf8_chunks chunks = Inr bss \<and> concat bss = bs"
proof (induction chunks arbitrary: bs)
  case Nil
  then show ?case by simp
next
  case (Cons c cs)
  then obtain x y where "utf8_encode c = Inr x" "utf8_encode (concat cs) = Inr y" "bs = x @ y"
    by (auto simp: utf8_encode_append split: sum.splits)
  then show ?case using Cons.IH[of y] by auto
qed

lemma utf8_chunks_concat_Inl:
  "utf8_chunks chunks = Inr bss \<Longrightarrow> utf8_encode (concat chunks) = Inr (concat bss)"
proof (induction chunks arbitrary: bss)
  case Nil
  then show ?case by simp
next
  case (Cons c cs)
  then obtain x y where "utf8_encode c = Inr x" "utf8_chunks cs = Inr y" "bss = x # y"
    by (auto split: sum.splits)
  then show ?case using Cons.IH[of y] by (simp add: utf8_encode_append)
qed

lemma encode_ok:
  assumes "tok_ok self" "pattern self = hindi_pattern cl" "utf8_encode s = Inr bs"
  shows "\<exists>ids. encode self s = Inr ids
        \<and> join_vocab (vocab self) ids = Inr bs
        \<and> length ids \<le> length bs"
proof -
  let ?chunks = "findall (hindi_pattern cl) s"
  have cc: "concat ?chunks = s"
    using findall_concat[of "hindi_pattern cl" s] pattern_match_pos pattern_match_some by blast
  then have "utf8_encode (concat ?chunks) = Inr bs" using assms(3) by simp
  from utf8_chunks_concat[OF this] obtain bss where
    bss: "utf8_chunks ?chunks = Inr bss" "concat bss = bs" by blast
  have ok: "base_ok (vocab self)" "\<forall>e\<in>set (merges self). entry_ok (vocab self) e"
    using assms(1) by (auto simp: tok_ok_def)
  have "join_vocab (vocab self) [] = Inr []" by simp
  from encode_chunks_ok[OF ok bss(1) this]
  show ?thesis using bss(2) assms(2) by (auto simp: encode_def)
qed

lemma encode_chunk_set:
  "encode_chunk ms ids = Inr out \<Longrightarrow> set out \<subseteq> set ids \<union> snd ` set ms"
proof (induction ms ids rule: encode_chunk.induct)
  case (1 ms chunk_ids)
  show ?case
  proof (cases "2 \<le> length chunk_ids")
    case False
    then have "encode_chunk ms chunk_ids = Inr chunk_ids" by (simp add: encode_chunk_short)
    then show ?thesis using 1(2) by auto
  next
    case True
    from encode_chunk_pair[OF True] obtain pair where
      p: "py_best rank_less (map_of ms) (map fst (get_stats chunk_ids)) = Inr pair" by blast
    note unf = encode_chunk_unfold[OF True p]
    show ?thesis
    proof (cases "map_of ms pair")
      case None
      then have "encode_chunk ms chunk_ids = Inr chunk_ids" using unf by simp
      then show ?thesis using 1(2) by auto
    next
      case (Some idx)
      have e: "encode_chunk ms (merge chunk_ids pair idx) = Inr out"
        using unf Some 1(2) by simp
      have "(pair, idx) \<in> set ms" using Some by (rule map_of_SomeD)
      then have "idx \<in> snd ` set ms" by force
      moreover have "set (merge chunk_ids pair idx) \<subseteq> insert idx (set chunk_ids)"
        using set_merge_rec[of chunk_ids pair idx] by (simp add: merge_eq_rec)
      ultimately show ?thesis using 1(1)[OF True p Some e] by auto
    qed
  qed
qed

lemma encode_chunks_set:
  "encode_chunks ms chunks acc = Inr out \<Longrightarrow>
     set out \<subseteq> set acc \<union> {b. 0 \<le> b \<and> b < 256} \<union> snd ` set ms"
proof (induction chunks arbitrary: acc)
  case Nil
  then show ?case by auto
next
  case (Cons c cs)
  from Cons.prems obtain x o1 where
    x: "utf8_encode c = Inr x" and o1: "encode_chunk ms x = Inr o1"
    and r: "encode_chunks ms cs (acc @ o1) = Inr out"
    by (auto split: sum.splits)
  have "set o1 \<subseteq> {b. 0 \<le> b \<and> b < 256} \<union> snd ` set ms"
    using encode_chunk_set[OF o1] utf8_encode_bytes[OF x] by auto
  then show ?case using Cons.IH[OF r] by auto
qed

lemma encode_chunks_valid:
  "encode_chunks ms chunks acc = Inr out \<Longrightarrow> \<exists>bss. utf8_chunks chunks = Inr bss"
proof (induction chunks arbitrary: acc)
  case Nil
  then show ?case by simp
next
  case (Cons c cs)
  from Cons.prems obtain x o1 where
    x: "utf8_encode c = Inr x" and o1: "encode_chunk ms x = Inr o1"
    and r: "encode_chunks ms cs (acc @ o1) = Inr out"
    by (auto split: sum.splits)
  then show ?case using Cons.IH[OF r] by auto
qed

lemma utf8_encode_error: "utf8_encode s = Inl e \<Longrightarrow> e = UnicodeEncodeError"
proof (induction s)
  case Nil
  then show ?case by simp
next
  case (Cons c cs)
  show ?case
  proof (cases "utf8_char c")
    case (Inl e')
    then have "e' = UnicodeEncodeError" by (auto simp: utf8_char_def split: if_splits)
    then show ?thesis using Cons.prems Inl by simp
  next
    case (Inr x)
    then show ?thesis using Cons by (auto split: sum.splits)
  qed
qed

lemma encode_chunks_error:
  "encode_chunks ms chunks acc = Inl e \<Longrightarrow> e = UnicodeEncodeError"
proof (induction chunks arbitrary: acc)
  case Nil
  then show ?case by simp
next
  case (Cons c cs)
  show ?case
  proof (cases "utf8_encode c")
    case (Inl e')
    have "e' = UnicodeEncodeError" using Inl by (rule utf8_encode_error)
    then show ?thesis using Cons.prems Inl by simp
  next
    case (Inr x)
    from encode_chunk_total[of ms x] obtain o1 where "encode_chunk ms x = Inr o1" by blast
    then show ?thesis using Cons.prems Inr Cons.IH[of "acc @ o1"] by simp
  qed
qed

lemma pattern_concat: "concat (findall (hindi_pattern cl) s) = s"
  using findall_concat[of "hindi_pattern cl" s] pattern_match_pos pattern_match_some by blast

lemma encode_Inr_valid:
  assumes "pattern self = hindi_pattern cl" "encode self s = Inr ids"
  shows "valid_text s"
proof -
  from assms obtain bss where "utf8_chunks (findall (hindi_pattern cl) s) = Inr bss"
    using encode_chunks_valid by (fastforce simp: encode_def)
  then have "utf8_encode (concat (findall (hindi_pattern cl) s)) = Inr (concat bss)"
    by (rule utf8_chunks_concat_Inl)
  then show ?thesis using utf8_encode_valid[of s] by (auto simp: pattern_concat)
qed

lemma encode_Inl: "encode self s = Inl e \<Longrightarrow> e = UnicodeEncodeError"
  using encode_chunks_error by (fastforce simp: encode_def)

lemma first_pos_Cons: "first_pos (k # ks) p = (if k = p then 0 else Suc (first_pos ks p))"
  by (simp add: first_pos_def)

lemma rank_le:
  fixes ms :: merges
  shows "sorted_wrt (<) (map snd ms) \<Longrightarrow> map_of ms p = Some v \<Longrightarrow> map_of ms q = Some w \<Longrightarrow>
     v \<le> w \<Longrightarrow> first_pos (map fst ms) p \<le> first_pos (map fst ms) q"
proof (induction ms)
  case Nil
  then show ?case by simp
next
  case (Cons e ms)
  obtain k u where e: "e = (k, u)" by (cases e)
  show ?case
  proof (cases "k = p")
    case True
    then show ?thesis using e by (simp add: first_pos_Cons)
  next
    case kp: False
    then have mp: "map_of ms p = Some v" using Cons.prems(2) e by simp
    show ?thesis
    proof (cases "k = q")
      case True
      then have "w = u" using Cons.prems(3) e by simp
      moreover have "(p, v) \<in> set ms" using mp by (rule map_of_SomeD)
      then have "u < v" using Cons.prems(1) e by force
      ultimately show ?thesis using Cons.prems(4) by simp
    next
      case False
      then have "map_of ms q = Some w" using Cons.prems(3) e by simp
      then show ?thesis using Cons.IH mp Cons.prems(1,4) kp False e
        by (simp add: first_pos_Cons)
    qed
  qed
qed

lemma rank_less_trans: "rank_less a b \<Longrightarrow> rank_less b c \<Longrightarrow> rank_less a c"
  by (auto simp: rank_less_def split: option.splits)

lemma rank_less_ntrans: "rank_less a c \<Longrightarrow> rank_less a b \<or> rank_less b c"
  by (auto simp: rank_less_def split: option.splits)

lemma rank_less_irrefl: "\<not> rank_less a a"
  by (auto simp: rank_less_def split: option.splits)

lemma py_best_rank_min:
  assumes "py_best rank_less key xs = Inr p" "y \<in> set xs"
  shows "\<not> rank_less (key y) (key p)"
proof -
  from assms(1) obtain x rest where xs: "xs = x # rest" and p: "p = first_best rank_less key x rest"
    by (auto simp: py_best_def split: list.splits)
  have "\<not> rank_less (key x) (key (first_best rank_less key x rest))
       \<and> (\<forall>y\<in>set rest. \<not> rank_less (key y) (key (first_best rank_less key x rest)))
       \<and> (first_best rank_less key x rest = x
          \<or> (\<exists>pre post. rest = pre @ first_best rank_less key x rest # post
                \<and> rank_less (key (first_best rank_less key x rest)) (key x)
                \<and> (\<forall>y\<in>set pre. rank_less (key (first_best rank_less key x rest)) (key y))))"
  proof (rule first_best_first)
    show "\<And>a b c. rank_less a b \<Longrightarrow> rank_less b c \<Longrightarrow> rank_less a c"
      by (rule rank_less_trans)
    show "\<And>a b c. rank_less a c \<Longrightarrow> rank_less a b \<or> rank_less b c"
      by (rule rank_less_ntrans)
    show "\<And>a. \<not> rank_less a a"
      by (rule rank_less_irrefl)
  qed
  then show ?thesis using assms(2) xs p by auto
qed

lemma encode_invalid:
  assumes "pattern self = hindi_pattern cl" "\<not> valid_text s"
  shows "encode self s = Inl UnicodeEncodeError"
proof (cases "encode self s")
  case (Inl e)
  then show ?thesis using encode_Inl[OF Inl] by simp
next
  case (Inr ids)
  then show ?thesis using encode_Inr_valid[OF assms(1) Inr] assms(2) by simp
qed

lemma encode_chunk_min:
  assumes p: "py_best rank_less (map_of ms) (map fst (get_stats ids)) = Inr pair"
    and q: "q \<in> set (zip ids (drop 1 ids))"
  shows "\<not> rank_less (map_of ms q) (map_of ms pair)"
proof -
  have "q \<in> fst ` set (get_stats ids)" using q by (simp only: keys_get_stats)
  then have "q \<in> set (map fst (get_stats ids))" by simp
  then show ?thesis by (rule py_best_rank_min[OF p])
qed

lemma rank_less_None: "\<not> rank_less a None \<Longrightarrow> a = None"
  by (cases a) (simp_all add: rank_less_def)

lemma rank_less_Some: "\<not> rank_less (Some w) (Some v) \<Longrightarrow> v \<le> w"
  by (simp add: rank_less_def)

lemma encode_chunk_stop:
  assumes len: "2 \<le> length ids"
    and none: "\<forall>q\<in>set (zip ids (drop 1 ids)). map_of ms q = None"
  shows "encode_chunk ms ids = Inr ids"
proof -
  from encode_chunk_pair[OF len] obtain pair where
    p: "py_best rank_less (map_of ms) (map fst (get_stats ids)) = Inr pair"
    and pin: "pair \<in> set (zip ids (drop 1 ids))" by blast
  have "map_of ms pair = None" using none pin by (rule bspec)
  then show ?thesis using encode_chunk_unfold[OF len p] by simp
qed

lemma encode_chunk_merge:
  fixes ms :: merges
  assumes srt: "sorted_wrt (<) (map snd ms)" and len: "2 \<le> length ids"
    and some: "q0 \<in> set (zip ids (drop 1 ids))" "map_of ms q0 \<noteq> None"
  shows "\<exists>pair idx. pair \<in> set (zip ids (drop 1 ids))
       \<and> map_of ms pair = Some idx
       \<and> (\<forall>q\<in>set (zip ids (drop 1 ids)). map_of ms q \<noteq> None
              \<longrightarrow> first_pos (map fst ms) pair \<le> first_pos (map fst ms) q)
       \<and> encode_chunk ms ids = encode_chunk ms (merge ids pair idx)"
proof -
  from encode_chunk_pair[OF len] obtain pair where
    p: "py_best rank_less (map_of ms) (map fst (get_stats ids)) = Inr pair"
    and pin: "pair \<in> set (zip ids (drop 1 ids))" by blast
  have "map_of ms pair \<noteq> None"
  proof
    assume "map_of ms pair = None"
    then have "\<not> rank_less (map_of ms q0) None" using encode_chunk_min[OF p some(1)] by simp
    then have "map_of ms q0 = None" by (rule rank_less_None)
    then show False using some(2) by simp
  qed
  then obtain idx where idx: "map_of ms pair = Some idx" by blast
  have e: "encode_chunk ms ids = encode_chunk ms (merge ids pair idx)"
    using encode_chunk_unfold[OF len p] idx by simp
  have r: "\<forall>q\<in>set (zip ids (drop 1 ids)). map_of ms q \<noteq> None
              \<longrightarrow> first_pos (map fst ms) pair \<le> first_pos (map fst ms) q"
  proof (intro ballI impI)
    fix q assume q: "q \<in> set (zip ids (drop 1 ids))" "map_of ms q \<noteq> None"
    then obtain w where w: "map_of ms q = Some w" by blast
    have "\<not> rank_less (Some w) (Some idx)" using encode_chunk_min[OF p q(1)] w idx by simp
    then have "idx \<le> w" by (rule rank_less_Some)
    then show "first_pos (map fst ms) pair \<le> first_pos (map fst ms) q"
      by (rule rank_le[OF srt idx w])
  qed
  show ?thesis
    by (rule exI[of _ pair], rule exI[of _ idx]) (intro conjI pin idx r e)
qed

section \<open>A worked example: training on \<open>aaab\<close> with target size 258\<close>

lemma findall_aaab:
  "findall (hindi_pattern ascii_classes) [97, 97, 97, 98] = [[97, 97, 97, 98]]"
  by code_simp

lemma train_example:
  "train \<lparr> vocab_size = 258, merges = [], vocab = base_vocab,
           pattern = hindi_pattern ascii_classes \<rparr> [97, 97, 97, 98] False
     = Inr \<lparr> vocab_size = 258, merges = [((97, 97), 256), ((256, 97), 257)],
              vocab = base_vocab(256 \<mapsto> [97, 97], 257 \<mapsto> [97, 97, 97]),
              pattern = hindi_pattern ascii_classes \<rparr>"
proof -
  have u: "utf8_chunks [[97, 97, 97, 98]] = Inr [[97, 97, 97, 98]]"
    by (simp add: utf8_char_def)
  have g0: "get_stats [97, 97, 97, 98] = [((97, 97), 2), ((97, 98), 1)]"
    by (simp add: get_stats_def bump_def)
  have g1: "get_stats [256, 97, 98] = [((256, 97), 1), ((97, 98), 1)]"
    by (simp add: get_stats_def bump_def)
  have up: "[0 ..< nat (258 - 256)] = [0, 1]" "[0 ..< 2] = [0, Suc 0]" "[0 ..< 2] = [0, 1]"
    by (simp_all add: upt_rec)
  have l: "train_loop [0, 1] [97, 97, 97, 98] [] base_vocab
      = Inr ([257, 98], [((97, 97), 256), ((256, 97), 257)],
             base_vocab(256 \<mapsto> [97, 97], 257 \<mapsto> [97, 97, 97]))"
    by (simp add: g0 g1 py_best_def count_greater_def merge_eq_rec base_vocab_def)
  show ?thesis
    using l by (simp add: train_def findall_aaab utf8_char_def up del: findall.simps train_loop.simps)
qed

lemma findall_aab_bang:
  "findall (hindi_pattern ascii_classes) [97, 97, 98, 33] = [[97, 97, 98], [33]]"
  by code_simp

lemma encode_example:
  "encode \<lparr> vocab_size = 258, merges = [((97, 97), 256), ((256, 97), 257)],
            vocab = base_vocab(256 \<mapsto> [97, 97], 257 \<mapsto> [97, 97, 97]),
            pattern = hindi_pattern ascii_classes \<rparr> [97, 97, 98, 33]
     = Inr [256, 98, 33]"
proof -
  have g0: "get_stats [97, 97, 98] = [((97, 97), 1), ((97, 98), 1)]"
    by (simp add: get_stats_def bump_def)
  have g1: "get_stats [256, 98] = [((256, 98), 1)]"
    by (simp add: get_stats_def bump_def)
  have c1: "encode_chunk [((97, 97), 256), ((256, 97), 257)] [256, 98] = Inr [256, 98]"
    by (subst encode_chunk.simps) (simp add: g1 py_best_def)
  have c0: "encode_chunk [((97, 97), 256), ((256, 97), 257)] [97, 97, 98] = Inr [256, 98]"
    by (subst encode_chunk.simps) (simp add: g0 py_best_def rank_less_def merge_eq_rec c1)
  have c2: "encode_chunk [((97, 97), 256), ((256, 97), 257)] [33] = Inr [33]"
    by (simp add: encode_chunk_short)
  show ?thesis
    by (simp add: encode_def findall_aab_bang utf8_char_def c0 c2 del: findall.simps)
qed

section \<open>Construction\<close>

text \<open>
  C3: construction fails with \<open>ValueError\<close> (the spec's ConfigurationError) exactly
  when the target vocabulary size is below 256; 255 is rejected, every target from 256 on
  is accepted and gives the untrained instance. The constructor takes no corpus, so
  nothing is trained before the check.
\<close>

theorem init_rejects_small_vocab_size:
  "(init cl vs = Inl ValueError \<longleftrightarrow> vs < 256)
   \<and> init cl 255 = Inl ValueError
   \<and> (256 \<le> vs \<longrightarrow>
        init cl vs = Inr \<lparr> vocab_size = vs, merges = [], vocab = base_vocab,
                           pattern = hindi_pattern cl \<rparr>)"
  by (simp add: init_def)

theorem init_rejects_small_vocab_size_witness:
  "init ascii_classes 255 = Inl ValueError
   \<and> (256::int) \<le> 256
   \<and> init ascii_classes 256 =
       Inr \<lparr> vocab_size = 256, merges = [], vocab = base_vocab,
              pattern = hindi_pattern ascii_classes \<rparr>"
  using init_rejects_small_vocab_size [of ascii_classes 256] by simp

section \<open>The merge engine\<close>

text \<open>
  C5 (as amended): \<open>merge\<close> scans from the left; at a position where the pair stands
  it emits the replacement id and moves two positions on, elsewhere it copies one
  symbol and moves one position on. The output is never longer than the input, and when
  the replacement id is neither symbol of the pair no occurrence of the pair is left.
  On \<open>a a a\<close> with the pair \<open>(a, a)\<close> only the first occurrence is replaced (\<open>r a\<close>);
  on \<open>a a a a\<close> the first and the third of the three overlapping occurrences are
  replaced and the second is not (\<open>r r\<close>).
\<close>

theorem merge_replaces_left_to_right:
  "merge [] pair r = []
   \<and> merge [x] pair r = [x]
   \<and> merge (x # y # zs) pair r =
       (if x = fst pair \<and> y = snd pair then r # merge zs pair r
        else x # merge (y # zs) pair r)
   \<and> length (merge ids pair r) \<le> length ids
   \<and> (r \<noteq> fst pair \<and> r \<noteq> snd pair \<longrightarrow>
        pair \<notin> set (zip (merge ids pair r) (drop 1 (merge ids pair r))))
   \<and> merge [a, a, a] (a, a) r = [r, a]
   \<and> merge [a, a, a, a] (a, a) r = [r, r]"
  using merge_rec_no_pair[of r pair ids]
  by (simp add: merge_eq_rec length_merge_rec)

text \<open>An instance: a run of three after a separate occurrence.\<close>

theorem merge_replaces_left_to_right_witness:
  "merge [97, 97, 98, 97, 97, 97] (97, 97) 256 = [256, 98, 256, 97]
   \<and> length (merge [97, 97, 98, 97, 97, 97] (97, 97) 256) \<le> length [97, 97, 98, 97, 97, 97 :: int]
   \<and> (256::int) \<noteq> 97
   \<and> (97, 97) \<notin> set (zip (merge [97, 97, 98, 97, 97, 97] (97, 97) 256)
                          (drop 1 (merge [97, 97, 98, 97, 97, 97] (97, 97) 256)))"
  using merge_replaces_left_to_right [of "(97, 97)" 256 97 97 "[98, 97, 97, 97]" "[97, 97, 98, 97, 97, 97]" 97]
  by (simp add: merge_eq_rec)

text \<open>
  C5 as stated says that on \<open>a a a\<close> the first and the third occurrence are merged. The
  input has only two occurrences of the pair (at positions 0 and 1), and the output
  holds the replacement id once.
\<close>

theorem merge_three_equal_counterexample:
  "candidates [97, 97, 97] (97, 97) = [0, 1]
   \<and> merge [97, 97, 97] (97, 97) 256 = [256, 97]
   \<and> count_list (merge [97, 97, 97] (97, 97) 256) 256 = 1"
  by (simp add: candidates_def merge_eq_rec upt_rec[of 0] nth_Cons')

section \<open>Selection of the pair to merge in training\<close>

text \<open>
  C6: in an iteration of the training loop over a sequence with at least two symbols,
  \<open>max(stats, key=stats.get)\<close> returns an adjacent pair of the current sequence whose
  number of occurrences is the highest, and every other pair with the same number of
  occurrences first occurs later in the left-to-right scan of the sequence. The
  iteration goes on with exactly this pair: it is merged into the id \<open>256 + i\<close> and
  recorded in the merge table and the vocabulary.
\<close>

theorem train_selects_most_frequent_first:
  assumes "2 \<le> length ids"
  shows "\<exists>p. py_best count_greater (map_of (get_stats ids)) (map fst (get_stats ids)) = Inr p
      \<and> p \<in> set (zip ids (drop 1 ids))
      \<and> (\<forall>q\<in>set (zip ids (drop 1 ids)).
            count_list (zip ids (drop 1 ids)) q \<le> count_list (zip ids (drop 1 ids)) p)
      \<and> (\<forall>q\<in>set (zip ids (drop 1 ids)).
            q \<noteq> p \<and> count_list (zip ids (drop 1 ids)) q = count_list (zip ids (drop 1 ids)) p
            \<longrightarrow> first_pos (zip ids (drop 1 ids)) p < first_pos (zip ids (drop 1 ids)) q)
      \<and> train_loop (i # rest) ids ms vc =
          (case vc (fst p) of
             None \<Rightarrow> Inl KeyError
           | Some left \<Rightarrow>
               (case vc (snd p) of
                  None \<Rightarrow> Inl KeyError
                | Some right \<Rightarrow>
                    train_loop rest (merge ids p (256 + int i))
                      (AList.update p (256 + int i) ms)
                      (vc(256 + int i \<mapsto> left @ right))))"
proof -
  from max_pair_first[OF assms] obtain p where
    p: "py_best count_greater (map_of (get_stats ids)) (map fst (get_stats ids)) = Inr p"
    and rest: "p \<in> set (zip ids (drop 1 ids))"
      "\<forall>q\<in>set (zip ids (drop 1 ids)).
            count_list (zip ids (drop 1 ids)) q \<le> count_list (zip ids (drop 1 ids)) p"
      "\<forall>q\<in>set (zip ids (drop 1 ids)).
            q \<noteq> p \<and> count_list (zip ids (drop 1 ids)) q = count_list (zip ids (drop 1 ids)) p
            \<longrightarrow> first_pos (zip ids (drop 1 ids)) p < first_pos (zip ids (drop 1 ids)) q"
    by blast
  have "train_loop (i # rest) ids ms vc =
          (case vc (fst p) of
             None \<Rightarrow> Inl KeyError
           | Some left \<Rightarrow>
               (case vc (snd p) of
                  None \<Rightarrow> Inl KeyError
                | Some right \<Rightarrow>
                    train_loop rest (merge ids p (256 + int i))
                      (AList.update p (256 + int i) ms)
                      (vc(256 + int i \<mapsto> left @ right))))"
    using get_stats_nonempty[OF assms] p by (simp add: Let_def)
  with p rest show ?thesis by blast
qed

text \<open>An instance with a tie: \<open>(1, 2)\<close> and \<open>(3, 4)\<close> both occur twice.\<close>

theorem train_selects_most_frequent_first_witness:
  "2 \<le> length [1, 2, 1, 2, 3, 4, 3, 4 :: int]
   \<and> py_best count_greater (map_of (get_stats [1, 2, 1, 2, 3, 4, 3, 4 :: int]))
        (map fst (get_stats [1, 2, 1, 2, 3, 4, 3, 4 :: int])) = Inr (1, 2)
   \<and> count_list (zip [1, 2, 1, 2, 3, 4, 3, 4 :: int] (drop 1 [1, 2, 1, 2, 3, 4, 3, 4 :: int])) (3, 4) \<le> count_list (zip [1, 2, 1, 2, 3, 4, 3, 4 :: int] (drop 1 [1, 2, 1, 2, 3, 4, 3, 4 :: int])) (1, 2)
   \<and> first_pos (zip [1, 2, 1, 2, 3, 4, 3, 4 :: int] (drop 1 [1, 2, 1, 2, 3, 4, 3, 4 :: int])) (1, 2) < first_pos (zip [1, 2, 1, 2, 3, 4, 3, 4 :: int] (drop 1 [1, 2, 1, 2, 3, 4, 3, 4 :: int])) (3, 4)
   \<and> train_loop [0] [1, 2, 1, 2, 3, 4, 3, 4 :: int] [] base_vocab =
        Inr ([256, 256, 3, 4, 3, 4], [((1, 2), 256)], base_vocab(256 \<mapsto> [1, 2]))"
proof -
  have len: "2 \<le> length [1, 2, 1, 2, 3, 4, 3, 4 :: int]" by simp
  have sel: "py_best count_greater (map_of (get_stats [1, 2, 1, 2, 3, 4, 3, 4 :: int]))
        (map fst (get_stats [1, 2, 1, 2, 3, 4, 3, 4 :: int])) = Inr (1, 2)"
    by (simp add: get_stats_example py_best_def count_greater_def)
  from train_selects_most_frequent_first [OF len, of 0 "[]" "[]" base_vocab]
  obtain p where p: "py_best count_greater (map_of (get_stats [1, 2, 1, 2, 3, 4, 3, 4 :: int]))
        (map fst (get_stats [1, 2, 1, 2, 3, 4, 3, 4 :: int])) = Inr p"
    and mx: "\<forall>q\<in>set (zip [1, 2, 1, 2, 3, 4, 3, 4 :: int] (drop 1 [1, 2, 1, 2, 3, 4, 3, 4 :: int])). count_list (zip [1, 2, 1, 2, 3, 4, 3, 4 :: int] (drop 1 [1, 2, 1, 2, 3, 4, 3, 4 :: int])) q \<le> count_list (zip [1, 2, 1, 2, 3, 4, 3, 4 :: int] (drop 1 [1, 2, 1, 2, 3, 4, 3, 4 :: int])) p"
    and tie: "\<forall>q\<in>set (zip [1, 2, 1, 2, 3, 4, 3, 4 :: int] (drop 1 [1, 2, 1, 2, 3, 4, 3, 4 :: int])). q \<noteq> p \<and> count_list (zip [1, 2, 1, 2, 3, 4, 3, 4 :: int] (drop 1 [1, 2, 1, 2, 3, 4, 3, 4 :: int])) q = count_list (zip [1, 2, 1, 2, 3, 4, 3, 4 :: int] (drop 1 [1, 2, 1, 2, 3, 4, 3, 4 :: int])) p
        \<longrightarrow> first_pos (zip [1, 2, 1, 2, 3, 4, 3, 4 :: int] (drop 1 [1, 2, 1, 2, 3, 4, 3, 4 :: int])) p < first_pos (zip [1, 2, 1, 2, 3, 4, 3, 4 :: int] (drop 1 [1, 2, 1, 2, 3, 4, 3, 4 :: int])) q"
    and step: "train_loop [0] [1, 2, 1, 2, 3, 4, 3, 4 :: int] [] base_vocab =
            (case base_vocab (fst p) of
               None \<Rightarrow> Inl KeyError
             | Some left \<Rightarrow>
                 (case base_vocab (snd p) of
                    None \<Rightarrow> Inl KeyError
                  | Some right \<Rightarrow>
                      train_loop [] (merge [1, 2, 1, 2, 3, 4, 3, 4 :: int] p (256 + int 0))
                        (AList.update p (256 + int 0) [])
                        (base_vocab(256 + int 0 \<mapsto> left @ right))))"
    by blast
  have pe: "p = (1, 2)" using p sel by simp
  have in34: "(3, 4) \<in> set (zip [1, 2, 1, 2, 3, 4, 3, 4 :: int] (drop 1 [1, 2, 1, 2, 3, 4, 3, 4 :: int]))" by simp
  have c: "count_list (zip [1, 2, 1, 2, 3, 4, 3, 4 :: int] (drop 1 [1, 2, 1, 2, 3, 4, 3, 4 :: int])) (3, 4) \<le> count_list (zip [1, 2, 1, 2, 3, 4, 3, 4 :: int] (drop 1 [1, 2, 1, 2, 3, 4, 3, 4 :: int])) (1, 2)"
    using mx in34 pe by blast
  have "count_list (zip [1, 2, 1, 2, 3, 4, 3, 4 :: int] (drop 1 [1, 2, 1, 2, 3, 4, 3, 4 :: int])) (3, 4) = count_list (zip [1, 2, 1, 2, 3, 4, 3, 4 :: int] (drop 1 [1, 2, 1, 2, 3, 4, 3, 4 :: int])) (1, 2)" by simp
  then have f: "first_pos (zip [1, 2, 1, 2, 3, 4, 3, 4 :: int] (drop 1 [1, 2, 1, 2, 3, 4, 3, 4 :: int])) (1, 2) < first_pos (zip [1, 2, 1, 2, 3, 4, 3, 4 :: int] (drop 1 [1, 2, 1, 2, 3, 4, 3, 4 :: int])) (3, 4)"
    using tie in34 pe by auto
  have t: "train_loop [0] [1, 2, 1, 2, 3, 4, 3, 4 :: int] [] base_vocab =
        Inr ([256, 256, 3, 4, 3, 4], [((1, 2), 256)], base_vocab(256 \<mapsto> [1, 2]))"
    using step unfolding pe by (simp add: base_vocab_def merge_eq_rec)
  show ?thesis using len sel c f t by blast
qed

section \<open>The segmenter\<close>

text \<open>
  C4: for every string, whatever the tables of the character classes are, the chunks
  that \<open>findall\<close> returns for the pattern of the tokenizer are non-empty and
  concatenate to the string; the empty string has no chunk. The function is total, so
  segmentation never fails and its result is determined by the string. The pattern of a
  constructed tokenizer is this pattern.
\<close>

theorem segmenter_chunks_concatenate:
  "concat (findall (hindi_pattern cl) s) = s
   \<and> [] \<notin> set (findall (hindi_pattern cl) s)
   \<and> findall (hindi_pattern cl) [] = []
   \<and> (init cl vs = Inr self \<longrightarrow> pattern self = hindi_pattern cl)"
proof -
  have "concat (findall (hindi_pattern cl) s) = s \<and> [] \<notin> set (findall (hindi_pattern cl) s)"
    by (rule findall_concat) (auto intro: pattern_match_pos pattern_match_some)
  moreover have "init cl vs = Inr self \<longrightarrow> pattern self = hindi_pattern cl"
    by (auto simp: init_def split: if_splits)
  ultimately show ?thesis by simp
qed

text \<open>An instance: the text \<open>ab  c12 .  \<close> (with two spaces at the end).\<close>

theorem segmenter_chunks_concatenate_witness:
  "findall (hindi_pattern ascii_classes) [0x61, 0x62, 0x20, 0x20, 0x63, 0x31, 0x32, 0x20, 0x2E, 0x20, 0x20]
     = [[0x61, 0x62], [0x20], [0x20, 0x63], [0x31, 0x32], [0x20, 0x2E], [0x20, 0x20]]
   \<and> concat (findall (hindi_pattern ascii_classes)
        [0x61, 0x62, 0x20, 0x20, 0x63, 0x31, 0x32, 0x20, 0x2E, 0x20, 0x20])
     = [0x61, 0x62, 0x20, 0x20, 0x63, 0x31, 0x32, 0x20, 0x2E, 0x20, 0x20]
   \<and> [] \<notin> set (findall (hindi_pattern ascii_classes)
        [0x61, 0x62, 0x20, 0x20, 0x63, 0x31, 0x32, 0x20, 0x2E, 0x20, 0x20])
   \<and> init ascii_classes 256 = Inr \<lparr> vocab_size = 256, merges = [], vocab = base_vocab,
              pattern = hindi_pattern ascii_classes \<rparr>
   \<and> pattern \<lparr> vocab_size = 256, merges = [], vocab = base_vocab,
              pattern = hindi_pattern ascii_classes \<rparr> = hindi_pattern ascii_classes"
  using segmenter_chunks_concatenate [of ascii_classes
      "[0x61, 0x62, 0x20, 0x20, 0x63, 0x31, 0x32, 0x20, 0x2E, 0x20, 0x20]" 256
      "\<lparr> vocab_size = 256, merges = [], vocab = base_vocab, pattern = hindi_pattern ascii_classes \<rparr>"]
    findall_example
  by (simp add: init_def)

section \<open>The decoder\<close>

text \<open>
  C2: \<open>decode\<close> raises \<open>KeyError\<close> (the spec's InvalidTokenID) exactly when some id
  of its input has no entry in the vocabulary, and then returns no text at all; it raises
  nothing else, and when every id has an entry it returns a text. On a freshly
  constructed tokenizer \<open>[99999]\<close> raises \<open>KeyError\<close>.
\<close>

theorem decode_fails_iff_missing_id:
  "(decode self ids = Inl KeyError \<longleftrightarrow> (\<exists>i\<in>set ids. vocab self i = None))
   \<and> (\<forall>e. decode self ids = Inl e \<longrightarrow> e = KeyError)
   \<and> ((\<forall>i\<in>set ids. vocab self i \<noteq> None) \<longrightarrow> (\<exists>text. decode self ids = Inr text))
   \<and> (init cl vs = Inr fresh \<longrightarrow> decode fresh [99999] = Inl KeyError)"
proof -
  have 1: "decode self ids = Inl e \<longleftrightarrow> e = KeyError \<and> (\<exists>i\<in>set ids. vocab self i = None)" for e
    using join_vocab_Inl[of "vocab self" ids e]
    by (auto simp: decode_def split: sum.splits)
  have 2: "(\<forall>i\<in>set ids. vocab self i \<noteq> None) \<longrightarrow> (\<exists>text. decode self ids = Inr text)"
    using join_vocab_Inr[of ids "vocab self"] by (auto simp: decode_def)
  have 3: "init cl vs = Inr fresh \<longrightarrow> decode fresh [99999] = Inl KeyError"
    by (auto simp: init_def decode_def base_vocab_def split: if_splits)
  show ?thesis using 1 2 3 by blast
qed

text \<open>An instance on the untrained tokenizer with target size 300.\<close>

theorem decode_fails_iff_missing_id_witness:
  "init ascii_classes 300 =
     Inr \<lparr> vocab_size = 300, merges = [], vocab = base_vocab, pattern = hindi_pattern ascii_classes \<rparr>
   \<and> decode \<lparr> vocab_size = 300, merges = [], vocab = base_vocab,
              pattern = hindi_pattern ascii_classes \<rparr> [99999] = Inl KeyError
   \<and> decode \<lparr> vocab_size = 300, merges = [], vocab = base_vocab,
              pattern = hindi_pattern ascii_classes \<rparr> [104, 105, 300] = Inl KeyError
   \<and> decode \<lparr> vocab_size = 300, merges = [], vocab = base_vocab,
              pattern = hindi_pattern ascii_classes \<rparr> [104, 105] = Inr [104, 105]"
proof -
  let ?t = "\<lparr> vocab_size = 300, merges = [], vocab = base_vocab,
              pattern = hindi_pattern ascii_classes \<rparr>"
  have i: "init ascii_classes 300 = Inr ?t" by (simp add: init_def)
  have a: "decode ?t [99999] = Inl KeyError"
    using decode_fails_iff_missing_id [of ?t "[]" ascii_classes 300 ?t] i by blast
  have "\<exists>i\<in>set [104, 105, 300]. vocab ?t i = None" by (simp add: base_vocab_def)
  then have b: "decode ?t [104, 105, 300] = Inl KeyError"
    using decode_fails_iff_missing_id [of ?t "[104, 105, 300]" ascii_classes 300 ?t] by blast
  have c: "decode ?t [104, 105] = Inr [104, 105]"
    by (simp add: decode_def base_vocab_def)
  show ?thesis using i a b c by blast
qed

section \<open>The vocabulary after training\<close>

text \<open>
  C8: in a tokenizer that was constructed and then trained, every id \<open>i\<close> of 0..255
  maps to the single byte \<open>i\<close>, and for every entry \<open>(a, b) -> v\<close> of the merge table
  the id \<open>v\<close> is at least 256 and its vocabulary entry is the entry of \<open>a\<close> followed by
  the entry of \<open>b\<close>.
\<close>

theorem vocabulary_invariants:
  assumes "init cl vs = Inr fresh" and "train fresh corpus verbose = Inr self"
  shows "(\<forall>i. 0 \<le> i \<and> i < 256 \<longrightarrow> vocab self i = Some [i])
     \<and> (\<forall>a b v. ((a, b), v) \<in> set (merges self) \<longrightarrow>
           256 \<le> v \<and> (\<exists>x y. vocab self a = Some x \<and> vocab self b = Some y
                              \<and> vocab self v = Some (x @ y)))"
proof -
  have "tok_ok self"
    using train_tok_ok[OF tok_ok_base assms(2)] init_tok_ok[OF assms(1)] by blast
  then show ?thesis
    unfolding tok_ok_def base_ok_def entry_ok_def by fastforce
qed

text \<open>An instance: the tokenizer trained on \<open>aaab\<close>.\<close>

theorem vocabulary_invariants_witness:
  "init ascii_classes 258 = Inr \<lparr> vocab_size = 258, merges = [], vocab = base_vocab,
           pattern = hindi_pattern ascii_classes \<rparr>
   \<and> train \<lparr> vocab_size = 258, merges = [], vocab = base_vocab,
           pattern = hindi_pattern ascii_classes \<rparr> [97, 97, 97, 98] False
     = Inr \<lparr> vocab_size = 258, merges = [((97, 97), 256), ((256, 97), 257)],
              vocab = base_vocab(256 \<mapsto> [97, 97], 257 \<mapsto> [97, 97, 97]),
              pattern = hindi_pattern ascii_classes \<rparr>
   \<and> (base_vocab(256 \<mapsto> [97, 97], 257 \<mapsto> [97, 97, 97])) 97 = Some [97]
   \<and> (\<exists>x y. (base_vocab(256 \<mapsto> [97, 97], 257 \<mapsto> [97, 97, 97])) 256 = Some x
          \<and> (base_vocab(256 \<mapsto> [97, 97], 257 \<mapsto> [97, 97, 97])) 97 = Some y
          \<and> (base_vocab(256 \<mapsto> [97, 97], 257 \<mapsto> [97, 97, 97])) 257 = Some (x @ y))"
proof -
  let ?fresh = "\<lparr> vocab_size = 258, merges = [], vocab = base_vocab,
           pattern = hindi_pattern ascii_classes \<rparr>"
  let ?self = "\<lparr> vocab_size = 258, merges = [((97, 97), 256), ((256, 97), 257)],
              vocab = base_vocab(256 \<mapsto> [97, 97], 257 \<mapsto> [97, 97, 97]),
              pattern = hindi_pattern ascii_classes \<rparr>"
  have i: "init ascii_classes 258 = Inr ?fresh" by (simp add: init_def)
  note v = vocabulary_invariants [OF i train_example]
  have a: "vocab ?self 97 = Some [97]" using v by simp
  have "((256, 97), 257) \<in> set (merges ?self)" by simp
  then have b: "\<exists>x y. vocab ?self 256 = Some x \<and> vocab ?self 97 = Some y
          \<and> vocab ?self 257 = Some (x @ y)"
    using v by blast
  show ?thesis using i train_example a b by simp
qed

section \<open>The encoder and the decoder together\<close>

text \<open>
  C1: for a tokenizer that was constructed and then trained on any corpus, and every
  text without lone surrogates (the texts that have a UTF-8 encoding), \<open>encode\<close>
  returns a sequence of ids and \<open>decode\<close> of that sequence returns the text.
\<close>

theorem decode_encode_round_trip:
  assumes "init cl vs = Inr fresh"
    and "train fresh corpus verbose = Inr self"
    and "valid_text T"
  shows "\<exists>ids. encode self T = Inr ids \<and> decode self ids = Inr T"
proof -
  have ok: "tok_ok self" "pattern self = hindi_pattern cl"
    using train_tok_ok[OF tok_ok_base assms(2)] init_tok_ok[OF assms(1)] by auto
  from assms(3) obtain bs where bs: "utf8_encode T = Inr bs"
    using utf8_encode_valid[of T] by blast
  from encode_ok[OF ok bs] obtain ids where
    ids: "encode self T = Inr ids" "join_vocab (vocab self) ids = Inr bs" by blast
  have "decode self ids = Inr (utf8_decode bs)" using ids(2) by (simp add: decode_def)
  then show ?thesis using ids(1) utf8_round_trip[OF bs] by simp
qed

text \<open>An instance: the tokenizer trained on \<open>aaab\<close> and the text \<open>aab!\<close>.\<close>

theorem decode_encode_round_trip_witness:
  "init ascii_classes 258 = Inr \<lparr> vocab_size = 258, merges = [], vocab = base_vocab,
           pattern = hindi_pattern ascii_classes \<rparr>
   \<and> valid_text [97, 97, 98, 33]
   \<and> encode \<lparr> vocab_size = 258, merges = [((97, 97), 256), ((256, 97), 257)],
            vocab = base_vocab(256 \<mapsto> [97, 97], 257 \<mapsto> [97, 97, 97]),
            pattern = hindi_pattern ascii_classes \<rparr> [97, 97, 98, 33] = Inr [256, 98, 33]
   \<and> decode \<lparr> vocab_size = 258, merges = [((97, 97), 256), ((256, 97), 257)],
            vocab = base_vocab(256 \<mapsto> [97, 97], 257 \<mapsto> [97, 97, 97]),
            pattern = hindi_pattern ascii_classes \<rparr> [256, 98, 33] = Inr [97, 97, 98, 33]"
proof -
  let ?fresh = "\<lparr> vocab_size = 258, merges = [], vocab = base_vocab,
           pattern = hindi_pattern ascii_classes \<rparr>"
  let ?self = "\<lparr> vocab_size = 258, merges = [((97, 97), 256), ((256, 97), 257)],
              vocab = base_vocab(256 \<mapsto> [97, 97], 257 \<mapsto> [97, 97, 97]),
              pattern = hindi_pattern ascii_classes \<rparr>"
  have i: "init ascii_classes 258 = Inr ?fresh" by (simp add: init_def)
  have v: "valid_text [97, 97, 98, 33]" by (simp add: valid_text_def)
  from decode_encode_round_trip [OF i train_example v]
  obtain ids where "encode ?self [97, 97, 98, 33] = Inr ids"
    "decode ?self ids = Inr [97, 97, 98, 33]" by blast
  then have "decode ?self [256, 98, 33] = Inr [97, 97, 98, 33]"
    using encode_example by simp
  then show ?thesis using i v encode_example by blast
qed

text \<open>
  C9: for a tokenizer that was constructed and then trained, and every text with the
  UTF-8 encoding \<open>bs\<close>, \<open>encode\<close> returns a sequence of ids that is not longer than
  \<open>bs\<close>.
\<close>

theorem encode_does_not_expand:
  assumes "init cl vs = Inr fresh"
    and "train fresh corpus verbose = Inr self"
    and "utf8_encode T = Inr bs"
  shows "\<exists>ids. encode self T = Inr ids \<and> length ids \<le> length bs"
proof -
  have ok: "tok_ok self" "pattern self = hindi_pattern cl"
    using train_tok_ok[OF tok_ok_base assms(2)] init_tok_ok[OF assms(1)] by auto
  from encode_ok[OF ok assms(3)] show ?thesis by blast
qed

text \<open>An instance: four bytes become three ids.\<close>

theorem encode_does_not_expand_witness:
  "init ascii_classes 258 = Inr \<lparr> vocab_size = 258, merges = [], vocab = base_vocab,
           pattern = hindi_pattern ascii_classes \<rparr>
   \<and> utf8_encode [97, 97, 98, 33] = Inr [97, 97, 98, 33]
   \<and> encode \<lparr> vocab_size = 258, merges = [((97, 97), 256), ((256, 97), 257)],
            vocab = base_vocab(256 \<mapsto> [97, 97], 257 \<mapsto> [97, 97, 97]),
            pattern = hindi_pattern ascii_classes \<rparr> [97, 97, 98, 33] = Inr [256, 98, 33]
   \<and> length [256, 98, 33 :: int] \<le> length [97, 97, 98, 33 :: int]"
proof -
  let ?fresh = "\<lparr> vocab_size = 258, merges = [], vocab = base_vocab,
           pattern = hindi_pattern ascii_classes \<rparr>"
  let ?self = "\<lparr> vocab_size = 258, merges = [((97, 97), 256), ((256, 97), 257)],
              vocab = base_vocab(256 \<mapsto> [97, 97], 257 \<mapsto> [97, 97, 97]),
              pattern = hindi_pattern ascii_classes \<rparr>"
  have i: "init ascii_classes 258 = Inr ?fresh" by (simp add: init_def)
  have u: "utf8_encode [97, 97, 98, 33] = Inr [97, 97, 98, 33]" by (simp add: utf8_char_def)
  from encode_does_not_expand [OF i train_example u]
  obtain ids where "encode ?self [97, 97, 98, 33] = Inr ids"
    "length ids \<le> length [97, 97, 98, 33 :: int]" by blast
  then have "length [256, 98, 33 :: int] \<le> length [97, 97, 98, 33 :: int]"
    using encode_example by simp
  then show ?thesis using i u encode_example by blast
qed

text \<open>
  C10: for a tokenizer that was constructed and possibly trained, \<open>encode\<close> returns ids
  for every text without lone surrogates, and every id of a sequence that \<open>encode\<close>
  returns has a vocabulary entry: it is a byte value 0..255, or the id of an entry of the
  merge table, at least 256, whose vocabulary entry is the concatenation of the entries of
  its pair. So \<open>decode\<close> of that sequence returns a text and never \<open>KeyError\<close>.
\<close>

theorem encode_ids_in_vocabulary:
  assumes "init cl vs = Inr fresh"
    and "self = fresh \<or> train fresh corpus verbose = Inr self"
  shows "(valid_text T \<longrightarrow> (\<exists>ids. encode self T = Inr ids))
     \<and> (encode self T = Inr ids \<longrightarrow>
          (\<forall>i\<in>set ids. vocab self i \<noteq> None
              \<and> ((0 \<le> i \<and> i < 256) \<or> (\<exists>a b. ((a, b), i) \<in> set (merges self)
                     \<and> 256 \<le> i
                     \<and> (\<exists>x y. vocab self a = Some x \<and> vocab self b = Some y
                            \<and> vocab self i = Some (x @ y)))))
          \<and> (\<exists>s. decode self ids = Inr s))"
proof -
  have f: "tok_ok fresh" "pattern fresh = hindi_pattern cl"
    using init_tok_ok[OF assms(1)] by auto
  have ok: "tok_ok self" "pattern self = hindi_pattern cl"
    using assms(2) f train_tok_ok[OF tok_ok_base[OF f(1)]] by auto
  have 1: "valid_text T \<longrightarrow> (\<exists>ids. encode self T = Inr ids)"
    using encode_ok[OF ok] utf8_encode_valid[of T] by blast
  have 2: "(\<forall>i\<in>set ids. vocab self i \<noteq> None
              \<and> ((0 \<le> i \<and> i < 256) \<or> (\<exists>a b. ((a, b), i) \<in> set (merges self)
                     \<and> 256 \<le> i
                     \<and> (\<exists>x y. vocab self a = Some x \<and> vocab self b = Some y
                            \<and> vocab self i = Some (x @ y)))))
          \<and> (\<exists>s. decode self ids = Inr s)" if e: "encode self T = Inr ids"
  proof -
    have sub: "set ids \<subseteq> {b. 0 \<le> b \<and> b < 256} \<union> snd ` set (merges self)"
      using encode_chunks_set[of "merges self" _ "[]" ids] e by (simp add: encode_def)
    have a: "vocab self i \<noteq> None
              \<and> ((0 \<le> i \<and> i < 256) \<or> (\<exists>a b. ((a, b), i) \<in> set (merges self)
                     \<and> 256 \<le> i
                     \<and> (\<exists>x y. vocab self a = Some x \<and> vocab self b = Some y
                            \<and> vocab self i = Some (x @ y))))" if i: "i \<in> set ids" for i
    proof (cases "0 \<le> i \<and> i < 256")
      case True
      then show ?thesis using ok(1) by (auto simp: tok_ok_def base_ok_def)
    next
      case False
      then obtain p where p: "(p, i) \<in> set (merges self)" using sub i by auto
      then have "256 \<le> i" "entry_ok (vocab self) (p, i)"
        using ok(1) by (auto simp: tok_ok_def)
      then show ?thesis using p by (cases p) (auto simp: entry_ok_def)
    qed
    then have "\<forall>i\<in>set ids. vocab self i \<noteq> None" by blast
    then have "\<exists>s. decode self ids = Inr s"
      using join_vocab_Inr[of ids "vocab self"] by (auto simp: decode_def)
    then show ?thesis using a by blast
  qed
  show ?thesis using 1 2 by blast
qed

text \<open>An instance: the ids of \<open>aab!\<close> under the tokenizer trained on \<open>aaab\<close>.\<close>

theorem encode_ids_in_vocabulary_witness:
  "init ascii_classes 258 = Inr \<lparr> vocab_size = 258, merges = [], vocab = base_vocab,
           pattern = hindi_pattern ascii_classes \<rparr>
   \<and> encode \<lparr> vocab_size = 258, merges = [((97, 97), 256), ((256, 97), 257)],
            vocab = base_vocab(256 \<mapsto> [97, 97], 257 \<mapsto> [97, 97, 97]),
            pattern = hindi_pattern ascii_classes \<rparr> [97, 97, 98, 33] = Inr [256, 98, 33]
   \<and> (base_vocab(256 \<mapsto> [97, 97], 257 \<mapsto> [97, 97, 97])) 256 \<noteq> None
   \<and> (base_vocab(256 \<mapsto> [97, 97], 257 \<mapsto> [97, 97, 97])) 98 \<noteq> None
   \<and> (\<exists>s. decode \<lparr> vocab_size = 258, merges = [((97, 97), 256), ((256, 97), 257)],
            vocab = base_vocab(256 \<mapsto> [97, 97], 257 \<mapsto> [97, 97, 97]),
            pattern = hindi_pattern ascii_classes \<rparr> [256, 98, 33] = Inr s)"
proof -
  let ?fresh = "\<lparr> vocab_size = 258, merges = [], vocab = base_vocab,
           pattern = hindi_pattern ascii_classes \<rparr>"
  let ?self = "\<lparr> vocab_size = 258, merges = [((97, 97), 256), ((256, 97), 257)],
              vocab = base_vocab(256 \<mapsto> [97, 97], 257 \<mapsto> [97, 97, 97]),
              pattern = hindi_pattern ascii_classes \<rparr>"
  have i: "init ascii_classes 258 = Inr ?fresh" by (simp add: init_def)
  have t: "?self = ?fresh \<or> train ?fresh [97, 97, 97, 98] False = Inr ?self"
    using train_example by blast
  note th = encode_ids_in_vocabulary [OF i t, of "[97, 97, 98, 33]" "[256, 98, 33]"]
  have a: "\<forall>i\<in>set [256, 98, 33]. vocab ?self i \<noteq> None" using th encode_example by blast
  have b: "\<exists>s. decode ?self [256, 98, 33] = Inr s" using th encode_example by blast
  have "vocab ?self 256 \<noteq> None" "vocab ?self 98 \<noteq> None" using a by simp_all
  then show ?thesis using i encode_example b by simp
qed

section \<open>The merge loop of the encoder\<close>

text \<open>
  C7 (as amended): for a tokenizer that was constructed and possibly trained, the loop
  that \<open>encode\<close> runs on the bytes of a chunk behaves as follows. A sequence of fewer
  than two symbols is returned as it is. On a sequence of at least two symbols, if no
  adjacent pair has an entry in the merge table the loop stops and returns the sequence
  unchanged; otherwise it picks an adjacent pair that has an entry and whose position in
  the merge table (its rank, in insertion order) is the smallest among the adjacent pairs
  that have one, replaces it by its recorded id with \<open>merge\<close>, and goes on with the
  result. The loop always returns. \<open>encode\<close> returns ids for every text without lone
  surrogates; on a text with a lone surrogate it raises \<open>UnicodeEncodeError\<close>.
\<close>

theorem encode_applies_lowest_rank_merge:
  assumes "init cl vs = Inr fresh"
    and "self = fresh \<or> train fresh corpus verbose = Inr self"
  shows "(length chunk_ids < 2 \<longrightarrow> encode_chunk (merges self) chunk_ids = Inr chunk_ids)
     \<and> (2 \<le> length chunk_ids
          \<and> (\<forall>q\<in>set (zip chunk_ids (drop 1 chunk_ids)). map_of (merges self) q = None)
            \<longrightarrow> encode_chunk (merges self) chunk_ids = Inr chunk_ids)
     \<and> (2 \<le> length chunk_ids
          \<and> (\<exists>q\<in>set (zip chunk_ids (drop 1 chunk_ids)). map_of (merges self) q \<noteq> None)
            \<longrightarrow> (\<exists>pair idx. pair \<in> set (zip chunk_ids (drop 1 chunk_ids))
                   \<and> map_of (merges self) pair = Some idx
                   \<and> (\<forall>q\<in>set (zip chunk_ids (drop 1 chunk_ids)).
                          map_of (merges self) q \<noteq> None
                          \<longrightarrow> first_pos (map fst (merges self)) pair
                                \<le> first_pos (map fst (merges self)) q)
                   \<and> encode_chunk (merges self) chunk_ids
                       = encode_chunk (merges self) (merge chunk_ids pair idx)))
     \<and> (\<exists>out. encode_chunk (merges self) chunk_ids = Inr out)
     \<and> (valid_text T \<longrightarrow> (\<exists>ids. encode self T = Inr ids))
     \<and> (\<not> valid_text T \<longrightarrow> encode self T = Inl UnicodeEncodeError)"
proof -
  have f: "tok_ok fresh" "pattern fresh = hindi_pattern cl"
    using init_tok_ok[OF assms(1)] by auto
  have ok: "tok_ok self" "pattern self = hindi_pattern cl"
    using assms(2) f train_tok_ok[OF tok_ok_base[OF f(1)]] by auto
  have srt: "sorted_wrt (<) (map snd (merges self))" using ok(1) by (simp add: tok_ok_def)
  have 1: "length chunk_ids < 2 \<longrightarrow> encode_chunk (merges self) chunk_ids = Inr chunk_ids"
    by (simp add: encode_chunk_short)
  have 2: "2 \<le> length chunk_ids
          \<and> (\<forall>q\<in>set (zip chunk_ids (drop 1 chunk_ids)). map_of (merges self) q = None)
            \<longrightarrow> encode_chunk (merges self) chunk_ids = Inr chunk_ids"
    using encode_chunk_stop[of chunk_ids "merges self"] by simp
  have 3: "2 \<le> length chunk_ids
          \<and> (\<exists>q\<in>set (zip chunk_ids (drop 1 chunk_ids)). map_of (merges self) q \<noteq> None)
            \<longrightarrow> (\<exists>pair idx. pair \<in> set (zip chunk_ids (drop 1 chunk_ids))
                   \<and> map_of (merges self) pair = Some idx
                   \<and> (\<forall>q\<in>set (zip chunk_ids (drop 1 chunk_ids)).
                          map_of (merges self) q \<noteq> None
                          \<longrightarrow> first_pos (map fst (merges self)) pair
                                \<le> first_pos (map fst (merges self)) q)
                   \<and> encode_chunk (merges self) chunk_ids
                       = encode_chunk (merges self) (merge chunk_ids pair idx))"
  proof (intro impI, elim conjE bexE)
    fix q0
    assume "2 \<le> length chunk_ids" "q0 \<in> set (zip chunk_ids (drop 1 chunk_ids))"
      "map_of (merges self) q0 \<noteq> None"
    then show "\<exists>pair idx. pair \<in> set (zip chunk_ids (drop 1 chunk_ids))
                   \<and> map_of (merges self) pair = Some idx
                   \<and> (\<forall>q\<in>set (zip chunk_ids (drop 1 chunk_ids)).
                          map_of (merges self) q \<noteq> None
                          \<longrightarrow> first_pos (map fst (merges self)) pair
                                \<le> first_pos (map fst (merges self)) q)
                   \<and> encode_chunk (merges self) chunk_ids
                       = encode_chunk (merges self) (merge chunk_ids pair idx)"
      by (rule encode_chunk_merge[OF srt])
  qed
  have 4: "\<exists>out. encode_chunk (merges self) chunk_ids = Inr out"
    using encode_chunk_total[of "merges self" chunk_ids] by blast
  have 5: "valid_text T \<longrightarrow> (\<exists>ids. encode self T = Inr ids)"
  proof
    assume "valid_text T"
    then obtain bs where "utf8_encode T = Inr bs" using utf8_encode_valid[of T] by blast
    from encode_ok[OF ok this] show "\<exists>ids. encode self T = Inr ids" by blast
  qed
  have 6: "\<not> valid_text T \<longrightarrow> encode self T = Inl UnicodeEncodeError"
    using encode_invalid[OF ok(2)] by simp
  show ?thesis by (intro conjI 1 2 3 4 5 6)
qed

text \<open>
  An instance on the tokenizer trained on \<open>aaab\<close>: in \<open>a a b\<close> the pair \<open>(97, 97)\<close> is
  merged into 256, and \<open>256 b\<close> has no pair in the merge table.
\<close>

theorem encode_applies_lowest_rank_merge_witness:
  "init ascii_classes 258 = Inr \<lparr> vocab_size = 258, merges = [], vocab = base_vocab,
           pattern = hindi_pattern ascii_classes \<rparr>
   \<and> 2 \<le> length [97, 97, 98 :: int]
   \<and> encode_chunk [((97, 97), 256), ((256, 97), 257)] [97, 97, 98]
       = encode_chunk [((97, 97), 256), ((256, 97), 257)] (merge [97, 97, 98] (97, 97) 256)
   \<and> merge [97, 97, 98] (97, 97) 256 = [256, 98]
   \<and> encode_chunk [((97, 97), 256), ((256, 97), 257)] [256, 98] = Inr [256, 98]
   \<and> valid_text [97, 97, 98, 33]
   \<and> (\<exists>ids. encode \<lparr> vocab_size = 258, merges = [((97, 97), 256), ((256, 97), 257)],
              vocab = base_vocab(256 \<mapsto> [97, 97], 257 \<mapsto> [97, 97, 97]),
              pattern = hindi_pattern ascii_classes \<rparr> [97, 97, 98, 33] = Inr ids)"
proof -
  let ?fresh = "\<lparr> vocab_size = 258, merges = [], vocab = base_vocab,
           pattern = hindi_pattern ascii_classes \<rparr>"
  let ?ms = "[((97, 97), 256), ((256, 97), 257)] :: merges"
  let ?self = "\<lparr> vocab_size = 258, merges = ?ms,
              vocab = base_vocab(256 \<mapsto> [97, 97], 257 \<mapsto> [97, 97, 97]),
              pattern = hindi_pattern ascii_classes \<rparr>"
  have i: "init ascii_classes 258 = Inr ?fresh" by (simp add: init_def)
  have t: "?self = ?fresh \<or> train ?fresh [97, 97, 97, 98] False = Inr ?self"
    using train_example by (rule disjI2)
  note a = encode_applies_lowest_rank_merge [OF i t, of "[97, 97, 98]" "[97, 97, 98, 33]"]
  note b = encode_applies_lowest_rank_merge [OF i t, of "[256, 98]" "[97, 97, 98, 33]"]
  have len: "2 \<le> length [97, 97, 98 :: int]" by simp
  have ex: "\<exists>q\<in>set (zip [97, 97, 98] (drop 1 [97, 97, 98 :: int])). map_of (merges ?self) q \<noteq> None"
    by simp
  have "\<exists>pair idx. pair \<in> set (zip [97, 97, 98] (drop 1 [97, 97, 98 :: int]))
      \<and> map_of (merges ?self) pair = Some idx
      \<and> (\<forall>q\<in>set (zip [97, 97, 98] (drop 1 [97, 97, 98 :: int])).
             map_of (merges ?self) q \<noteq> None
             \<longrightarrow> first_pos (map fst (merges ?self)) pair \<le> first_pos (map fst (merges ?self)) q)
      \<and> encode_chunk (merges ?self) [97, 97, 98]
          = encode_chunk (merges ?self) (merge [97, 97, 98] pair idx)"
    using a[THEN conjunct2, THEN conjunct2, THEN conjunct1] len ex by (elim impE conjI)
  then obtain pair idx where
    pin: "pair \<in> set (zip [97, 97, 98] (drop 1 [97, 97, 98 :: int]))"
    and mp: "map_of (merges ?self) pair = Some idx"
    and e: "encode_chunk (merges ?self) [97, 97, 98]
              = encode_chunk (merges ?self) (merge [97, 97, 98] pair idx)"
    by (elim exE conjE)
  have "pair = (97, 97) \<or> pair = (97, 98)" using pin by simp
  then have pe: "pair = (97, 97)" using mp by auto
  then have ie: "idx = 256" using mp by simp
  have s1: "encode_chunk ?ms [97, 97, 98] = encode_chunk ?ms (merge [97, 97, 98] (97, 97) 256)"
    using e pe ie by simp
  have m: "merge [97, 97, 98] (97, 97) 256 = [256, 98]" by (simp add: merge_eq_rec)
  have "2 \<le> length [256, 98 :: int]
      \<and> (\<forall>q\<in>set (zip [256, 98] (drop 1 [256, 98 :: int])). map_of (merges ?self) q = None)"
    by simp
  then have "encode_chunk (merges ?self) [256, 98] = Inr [256, 98]"
    using b[THEN conjunct2, THEN conjunct1] by (elim impE)
  then have s2: "encode_chunk ?ms [256, 98] = Inr [256, 98]" by simp
  have v: "valid_text [97, 97, 98, 33]" by (simp add: valid_text_def)
  have s3: "\<exists>ids. encode ?self [97, 97, 98, 33] = Inr ids"
    using a[THEN conjunct2, THEN conjunct2, THEN conjunct2, THEN conjunct2, THEN conjunct1] v
    by (elim impE)
  show ?thesis by (intro conjI i len s1 m s2 v s3)
qed

text \<open>
  C7 as stated says that encoding never fails. The text that consists of the lone
  surrogate \<open>U+D800\<close> is one chunk, and \<open>chunk.encode("utf-8")\<close> raises
  \<open>UnicodeEncodeError\<close> on it.
\<close>

theorem encode_lone_surrogate_counterexample:
  "train \<lparr> vocab_size = 258, merges = [], vocab = base_vocab,
           pattern = hindi_pattern ascii_classes \<rparr> [97, 97, 97, 98] False
     = Inr \<lparr> vocab_size = 258, merges = [((97, 97), 256), ((256, 97), 257)],
              vocab = base_vocab(256 \<mapsto> [97, 97], 257 \<mapsto> [97, 97, 97]),
              pattern = hindi_pattern ascii_classes \<rparr>
   \<and> encode \<lparr> vocab_size = 258, merges = [((97, 97), 256), ((256, 97), 257)],
              vocab = base_vocab(256 \<mapsto> [97, 97], 257 \<mapsto> [97, 97, 97]),
              pattern = hindi_pattern ascii_classes \<rparr> [0xD800] = Inl UnicodeEncodeError"
proof -
  have "\<not> valid_text [0xD800]" by (simp add: valid_text_def)
  then have "encode \<lparr> vocab_size = 258, merges = [((97, 97), 256), ((256, 97), 257)],
              vocab = base_vocab(256 \<mapsto> [97, 97], 257 \<mapsto> [97, 97, 97]),
              pattern = hindi_pattern ascii_classes \<rparr> [0xD800] = Inl UnicodeEncodeError"
    by (intro encode_invalid[of _ ascii_classes]) simp_all
  then show ?thesis using train_example by blast
qed

end
